theory Spec2Isabelle
  imports Main "HOL-Library.Sublist"
begin

section \<open>The fallback chain registry (model-fallback module)\<close>

text \<open>
  The registry module keeps one module-level variable, \<open>_fallbackChain\<close>, which is
  \<open>null\<close> until the first call of \<open>getFallbackChain\<close>. The process environment
  is a partial map from variable names to strings. Every exported function goes through
  \<open>getFallbackChain\<close>, so every function of the model takes the environment and the
  cache and returns the cache next to its result.
\<close>

record FallbackEntry =
  model :: string
  provider :: string
  maxRetries :: nat

type_synonym process_env = "string \<Rightarrow> string option"

type_synonym chain_cache = "FallbackEntry list option"

definition env_or :: "process_env \<Rightarrow> string \<Rightarrow> string \<Rightarrow> string" where
  \<comment> \<open>\<open>process.env.NAME || dflt\<close>: an unset variable and the empty string are both falsy.\<close>
  "env_or env name dflt =
     (case env name of None \<Rightarrow> dflt | Some v \<Rightarrow> if v = [] then dflt else v)"

definition buildChain :: "process_env \<Rightarrow> FallbackEntry list" where
  "buildChain env =
     [ \<lparr>model = env_or env ''PRIMARY_MODEL'' ''qwen/qwen3-coder'',
        provider = env_or env ''PRIMARY_PROVIDER'' ''OpenRouter'', maxRetries = 2\<rparr>,
       \<lparr>model = env_or env ''FALLBACK_MODEL_1'' ''gemini-2.5-flash'',
        provider = env_or env ''FALLBACK_PROVIDER_1'' ''OpenRouter'', maxRetries = 2\<rparr>,
       \<lparr>model = env_or env ''FALLBACK_MODEL_2'' ''x-ai/grok-4-fast'',
        provider = env_or env ''FALLBACK_PROVIDER_2'' ''OpenRouter'', maxRetries = 1\<rparr>,
       \<lparr>model = env_or env ''FALLBACK_MODEL_3'' ''qwen/qwen3-coder-480b-a35b-instruct'',
        provider = env_or env ''FALLBACK_PROVIDER_3'' ''Novita'', maxRetries = 1\<rparr> ]"

definition getFallbackChain :: "process_env \<Rightarrow> chain_cache \<Rightarrow> FallbackEntry list \<times> chain_cache" where
  \<comment> \<open>An array is truthy, so \<open>if (_fallbackChain)\<close> tests for non-null.\<close>
  "getFallbackChain env cache =
     (case cache of
        Some chain \<Rightarrow> (chain, cache)
      | None \<Rightarrow> (let chain = buildChain env in (chain, Some chain)))"

definition getDefaultModel :: "process_env \<Rightarrow> chain_cache \<Rightarrow> FallbackEntry option \<times> chain_cache" where
  \<comment> \<open>\<open>getFallbackChain()[0]\<close>: index 0 of an empty array is \<open>undefined\<close>, here \<open>None\<close>.\<close>
  "getDefaultModel env cache =
     (case getFallbackChain env cache of
        (chain, cache') \<Rightarrow> (case chain of [] \<Rightarrow> None | e # _ \<Rightarrow> Some e, cache'))"

fun findIndex :: "('a \<Rightarrow> bool) \<Rightarrow> 'a list \<Rightarrow> int" where
  \<comment> \<open>\<open>Array.prototype.findIndex\<close>: the index of the first match, \<open>-1\<close> when there is none.\<close>
  "findIndex P [] = - 1"
| "findIndex P (x # xs) =
     (if P x then 0 else (let i = findIndex P xs in if i = - 1 then - 1 else i + 1))"

definition getNextFallback ::
  "process_env \<Rightarrow> chain_cache \<Rightarrow> string \<Rightarrow> FallbackEntry option \<times> chain_cache" where
  "getNextFallback env cache currentModel =
     (case getFallbackChain env cache of
        (chain, cache') \<Rightarrow>
          (let currentIndex = findIndex (\<lambda>f. model f = currentModel) chain in
           if currentIndex = - 1 \<or> currentIndex \<ge> int (length chain) - 1
           then (None, cache')
           else (Some (chain ! nat (currentIndex + 1)), cache')))"

subsection \<open>Thrown values and their classification\<close>

text \<open>
  JavaScript throws any value. A caught value is \<open>null\<close> or \<open>undefined\<close>
  (\<open>ThrownNullish\<close>), another falsy value such as \<open>0\<close> or the empty string
  (\<open>ThrownFalsy\<close>, which has no fields), or a truthy value, recorded by the fields the
  code reads from it. Its \<open>message\<close> is missing (\<open>null\<close> or \<open>undefined\<close>), a
  string, or something else: a number, a boolean or an object without the methods of a
  string, of which only the truthiness is kept.

  A string that the code lower-cases and searches is a list of UTF-16 code units. The
  other strings of the model (model and provider names, variables, message contents) are
  only compared and concatenated and are Isabelle strings.
\<close>

type_synonym js_string = "nat list"

definition ascii :: "string \<Rightarrow> js_string" where
  \<comment> \<open>The code units of a string literal of the source, all of them in ASCII.\<close>
  "ascii s = map of_char s"

datatype js_message = NoMessage | StringMessage js_string | OtherMessage bool

record js_error =
  message :: js_message
  statusCode :: "nat option"
  isRetryable :: "bool option"
  errProvider :: "string option"

datatype thrown = ThrownNullish | ThrownFalsy | ThrownObject js_error

definition mkError :: "string \<Rightarrow> thrown" where
  \<comment> \<open>\<open>new Error(msg)\<close>, also for the errors the runtime raises, with the message texts
      of V8 and of the fetch implementation of Node.\<close>
  "mkError msg =
     ThrownObject \<lparr>message = StringMessage (ascii msg), statusCode = None, isRetryable = None,
                   errProvider = None\<rparr>"

definition messageOf :: "thrown \<Rightarrow> js_message" where
  \<comment> \<open>\<open>error?.message\<close>\<close>
  "messageOf error = (case error of ThrownObject e \<Rightarrow> message e | _ \<Rightarrow> NoMessage)"

definition truthy :: "thrown \<Rightarrow> bool" where
  "truthy error = (case error of ThrownObject e \<Rightarrow> True | _ \<Rightarrow> False)"

text \<open>
  \<open>String.prototype.toLowerCase\<close> follows the case mapping of Unicode. All the strings
  searched for in a lower-cased message are ASCII, so of a code unit outside ASCII the
  result keeps only that there is one (\<open>None\<close>). The capital letters \<open>A\<close> to \<open>Z\<close>
  become small letters and the rest of ASCII stays. Outside ASCII the mapping gives code
  units outside ASCII, with two exceptions: the Kelvin sign U+212A becomes \<open>k\<close>, and the
  dotted capital I U+0130 becomes \<open>i\<close> followed by the combining dot U+0307.
\<close>

definition toLowerUnit :: "nat \<Rightarrow> nat option list" where
  "toLowerUnit u =
     (if 65 \<le> u \<and> u \<le> 90 then [Some (u + 32)]
      else if u < 128 then [Some u]
      else if u = 8490 then [Some 107]
      else if u = 304 then [Some 105, None]
      else [None])"

definition toLowerCase :: "js_string \<Rightarrow> nat option list" where
  "toLowerCase s = concat (map toLowerUnit s)"

fun startsWith :: "'a list \<Rightarrow> 'a list \<Rightarrow> bool" where
  "startsWith s [] = True"
| "startsWith [] (p # ps) = False"
| "startsWith (c # cs) (p # ps) = (c = p \<and> startsWith cs ps)"

fun str_includes :: "'a list \<Rightarrow> 'a list \<Rightarrow> bool" where
  \<comment> \<open>\<open>String.prototype.includes\<close>: the needle occurs as a contiguous substring.\<close>
  "str_includes [] needle = (needle = [])"
| "str_includes (c # cs) needle = (startsWith (c # cs) needle \<or> str_includes cs needle)"

definition retryableErrors :: "string list" where
  "retryableErrors =
     [''overloaded'', ''rate limit'', ''timeout'', ''network'', ''429'', ''503'', ''500'']"

definition isRetryableError :: "thrown \<Rightarrow> bool" where
  \<comment> \<open>\<open>retryableErrors.some(err => errorMessage.includes(err))\<close> with
      \<open>errorMessage = error?.message?.toLowerCase() || ''\<close>, for a message that is a
      string or missing.\<close>
  "isRetryableError error =
     (let errorMessage = (case messageOf error of StringMessage m \<Rightarrow> toLowerCase m | _ \<Rightarrow> [])
      in list_ex (\<lambda>err. str_includes errorMessage (map Some (ascii err))) retryableErrors)"

definition shouldRetry ::
  "process_env \<Rightarrow> chain_cache \<Rightarrow> thrown \<Rightarrow> nat \<Rightarrow> string \<Rightarrow> (thrown + bool) \<times> chain_cache" where
  \<comment> \<open>The chain entry is looked up first. Then the message is lower-cased:
      \<open>?.\<close> stops at \<open>null\<close> and \<open>undefined\<close> only, so a message that is neither
      missing nor a string (also a falsy one, as \<open>0\<close>) reaches the call of
      \<open>toLowerCase\<close>, which it does not have, and the call throws a \<open>TypeError\<close>.\<close>
  "shouldRetry env cache error currentRetry mdl =
     (case getFallbackChain env cache of
        (chain, cache') \<Rightarrow>
          (case find (\<lambda>f. model f = mdl) chain of
             None \<Rightarrow> (Inr False, cache')
           | Some fallback \<Rightarrow>
               (case messageOf error of
                  OtherMessage t \<Rightarrow>
                    (Inl (mkError ''error?.message?.toLowerCase is not a function''), cache')
                | _ \<Rightarrow>
                    (Inr (isRetryableError error \<and> currentRetry < maxRetries fallback), cache'))))"


section \<open>The chat route (api.chat-nonstream)\<close>

subsection \<open>Data\<close>

text \<open>
  Ids (random strings from \<open>generateId\<close>, in messages and in the response), the
  constant role of the response, and the request fields that are only handed through to
  the model call (\<open>promptId\<close>, \<open>designScheme\<close>, \<open>supabase\<close>, \<open>maxLLMSteps\<close>)
  are left out of the records. Token counts are integers; a count that is missing or not a
  number is \<open>None\<close>.
\<close>

record message =
  role :: string
  content :: string

record token_usage =
  completionTokens :: "int option"
  promptTokens :: "int option"
  totalTokens :: "int option"

record cumulative_usage =
  cumCompletionTokens :: int
  cumPromptTokens :: int
  cumTotalTokens :: int

record gen_result =
  resultText :: string
  reasoning :: "string option"
  usage :: "token_usage option"
  toolCalls :: "string list option"

type_synonym file_map = "(string \<times> string) list"

record request_body =
  messages :: "message list"
  files :: "file_map option"
  contextOptimization :: bool
  chatMode :: string
  useKimiPlanning :: "bool option"
  requestedModel :: "string option"
  requestedProvider :: "string option"

record auth_user =
  subscriptionTier :: string
  supabaseUserId :: "string option"

record action_check =
  allowed :: bool
  reason :: "string option"

datatype log_level = Info | Warn | Error | Debug

text \<open>
  Everything the handler does to the outside is an effect, in the order it happens. A log
  line is recorded with its level only.
\<close>

datatype effect =
    Log log_level
  | RequireAuth
  | GetAuthenticatedUser
  | CanPerformAction string string
  | PlanningCall string
  | ProcessToolInvocations "message list"
  | CreateSummary "message list"
  | SelectContext "message list"
  | BuilderCall string string "message list"
  | IncrementUsage string string int int

record generated_body =
  gbContent :: string
  gbUsage :: cumulative_usage
  gbContextFiles :: "string list"
  gbSummary :: "string option"
  gbToolCalls :: "string list"

record error_body =
  ebMessage :: js_string
  ebStatusCode :: nat
  ebIsRetryable :: bool
  ebProvider :: string

datatype response_body =
    LimitReached string
  | Generated generated_body
  | Failed error_body

record response =
  status :: nat
  body :: response_body

text \<open>
  The collaborators of the handler (authentication, the usage service, the MCP service,
  summary and context selection, the model call behind \<open>generateText\<close>, the database)
  are the fields of a record: what each call returns or throws (\<open>Inl\<close> is a throw).
  \<open>createSummary\<close> and \<open>selectContext\<close> also give the responses they hand to their
  \<open>onFinish\<close> callback. \<open>builderGenerateText n\<close> is the builder call made after
  \<open>n\<close> earlier builder calls of the same request. \<open>cookieError\<close> is the error of
  parsing the cookie header, if any.
\<close>

record world =
  requireAuth :: "thrown + string"
  getAuthenticatedUser :: "thrown + auth_user"
  canPerformAction :: "string \<Rightarrow> string \<Rightarrow> thrown + action_check"
  requestJson :: "thrown + request_body"
  cookieError :: "thrown option"
  extractPropertiesFromMessage :: "message \<Rightarrow> thrown + string"
  planningGenerateText :: "string \<Rightarrow> thrown + gen_result"
  processToolInvocations :: "message list \<Rightarrow> thrown + message list"
  getFilePaths :: "file_map \<Rightarrow> string list"
  createSummary :: "message list \<Rightarrow> token_usage option list \<times> (thrown + string option)"
  selectContext ::
    "message list \<Rightarrow> string option \<Rightarrow> token_usage option list \<times> (thrown + file_map option)"
  builderGenerateText :: "nat \<Rightarrow> string \<Rightarrow> string \<Rightarrow> message list \<Rightarrow> thrown + gen_result"
  incrementUsage :: "string \<Rightarrow> string \<Rightarrow> int \<Rightarrow> int \<Rightarrow> thrown option"
  WORK_DIR :: string

definition strOr :: "string option \<Rightarrow> string \<Rightarrow> string" where
  \<comment> \<open>\<open>s || dflt\<close> on an optional string\<close>
  "strOr s dflt = (case s of None \<Rightarrow> dflt | Some v \<Rightarrow> if v = [] then dflt else v)"

definition orDefault :: "string option \<Rightarrow> string \<Rightarrow> string option \<Rightarrow> thrown + string" where
  \<comment> \<open>\<open>requested || defaultFallback.field\<close>: the right operand is read only when the
      left one is falsy, and reading a field of \<open>undefined\<close> throws a \<open>TypeError\<close>.\<close>
  "orDefault requested field dflt =
     (if (case requested of None \<Rightarrow> False | Some v \<Rightarrow> v \<noteq> [])
      then Inr (strOr requested [])
      else (case dflt of
              None \<Rightarrow>
                Inl (mkError (''Cannot read properties of undefined (reading ''
                               @ [CHR 0x27] @ field @ [CHR 0x27] @ '')''))
            | Some d \<Rightarrow> Inr d))"

subsection \<open>The usage-limit guard\<close>

datatype guard_outcome = GuardReject response | GuardPass string "string option"

definition usageGuard :: "world \<Rightarrow> string \<Rightarrow> guard_outcome \<times> effect list" where
  "usageGuard w userId =
     (case getAuthenticatedUser w of
        Inl e \<Rightarrow> (GuardPass ''free'' None, [GetAuthenticatedUser, Log Error])
      | Inr user \<Rightarrow>
          (case canPerformAction w userId ''ai_generation'' of
             Inl e \<Rightarrow>
               (GuardPass (subscriptionTier user) (supabaseUserId user),
                [GetAuthenticatedUser, Log Info, CanPerformAction userId ''ai_generation'', Log Error])
           | Inr canGenerate \<Rightarrow>
               if \<not> allowed canGenerate
               then (GuardReject
                       \<lparr>status = 429,
                        body = LimitReached (strOr (reason canGenerate) ''AI generation limit reached'')\<rparr>,
                     [GetAuthenticatedUser, Log Info, CanPerformAction userId ''ai_generation'', Log Warn])
               else (GuardPass (subscriptionTier user) (supabaseUserId user),
                     [GetAuthenticatedUser, Log Info, CanPerformAction userId ''ai_generation'', Log Info])))"


subsection \<open>The planning stage\<close>

definition planningPrompt :: "string \<Rightarrow> string" where
  "planningPrompt cleanContent =
     ''You are a creative design consultant providing inspiration and suggestions for mobile app design.\<newline>\<newline>User Request: ''
     @ cleanContent
     @ ''\<newline>\<newline>Provide creative design suggestions including:\<newline>\<newline>1. **Suggested Screens** (8-12 screens that would make this app complete)\<newline>2. **Color Palette Ideas** (suggest 2-3 beautiful color schemes with hex codes)\<newline>3. **Typography Suggestions** (font pairings and sizes)\<newline>4. **Layout Patterns** (modern mobile UI patterns that would work well)\<newline>5. **Visual Style** (design philosophy - minimal, bold, playful, etc.)\<newline>6. **Key Features** (unique features that would make this app stand out)\<newline>\<newline>Keep it concise and inspirational - these are suggestions to enhance creativity, not rigid requirements.''"

definition formattedPrompt :: "string \<Rightarrow> string \<Rightarrow> string \<Rightarrow> string" where
  "formattedPrompt currentModel currentProvider designPlan =
     ''[Model: '' @ currentModel @ '']\<newline>\<newline>[Provider: '' @ currentProvider
     @ '']\<newline>\<newline>'' @ designPlan"

definition lastUserMessage :: "message list \<Rightarrow> message option" where
  \<comment> \<open>\<open>messages.filter(m => m.role === 'user').slice(-1)[0]\<close>\<close>
  "lastUserMessage msgs =
     (case filter (\<lambda>m. role m = ''user'') msgs of [] \<Rightarrow> None | u # us \<Rightarrow> Some (last (u # us)))"

definition planningTry ::
  "world \<Rightarrow> message list \<Rightarrow> message \<Rightarrow> string \<Rightarrow> string \<Rightarrow> message list \<times> effect list" where
  \<comment> \<open>The \<open>try\<close> block of the planning stage with its \<open>catch\<close>: a throw leaves
      \<open>enhancedMessages\<close> as it was, the request's messages.\<close>
  "planningTry w msgs lum currentModel currentProvider =
     (case extractPropertiesFromMessage w lum of
        Inl e \<Rightarrow> (msgs, [Log Info, Log Error])
      | Inr cleanContent \<Rightarrow>
          (case planningGenerateText w (planningPrompt cleanContent) of
             Inl e \<Rightarrow>
               (msgs, [Log Info, Log Info, PlanningCall (planningPrompt cleanContent), Log Error])
           | Inr planningResult \<Rightarrow>
               (let designPlan = strOr (reasoning planningResult) (resultText planningResult)
                in if designPlan = []
                   then (msgs,
                         [Log Info, Log Info, PlanningCall (planningPrompt cleanContent),
                          Log Info, Log Info, Log Info, Log Info, Log Info, Log Error, Log Error])
                   else (butlast msgs
                           @ [\<lparr>role = ''user'',
                               content = formattedPrompt currentModel currentProvider designPlan\<rparr>],
                         [Log Info, Log Info, PlanningCall (planningPrompt cleanContent),
                          Log Info, Log Info, Log Info, Log Info, Log Info,
                          Log Info, Log Info, Log Info, Log Info]))))"

definition planningStage ::
  "world \<Rightarrow> request_body \<Rightarrow> string \<Rightarrow> string \<Rightarrow> message list \<times> effect list" where
  "planningStage w req currentModel currentProvider =
     (let kimiEnabled = (useKimiPlanning req \<noteq> Some False) in
      case lastUserMessage (messages req) of
        None \<Rightarrow> (messages req, [Log Info])
      | Some lum \<Rightarrow>
          if chatMode req = ''build'' \<and> kimiEnabled
          then (case planningTry w (messages req) lum currentModel currentProvider of
                  (enhanced, eff) \<Rightarrow> (enhanced, [Log Info, Log Info] @ eff))
          else (messages req, [Log Info]))"

subsection \<open>Usage accounting and context preparation\<close>

definition orZero :: "int option \<Rightarrow> int" where
  \<comment> \<open>\<open>n || 0\<close>\<close>
  "orZero n = (case n of None \<Rightarrow> 0 | Some v \<Rightarrow> v)"

definition addUsage :: "cumulative_usage \<Rightarrow> token_usage option \<Rightarrow> cumulative_usage" where
  \<comment> \<open>\<open>if (resp.usage) { cumulativeUsage.x += resp.usage.x || 0; ... }\<close>\<close>
  "addUsage cum u =
     (case u of
        None \<Rightarrow> cum
      | Some v \<Rightarrow>
          \<lparr>cumCompletionTokens = cumCompletionTokens cum + orZero (completionTokens v),
           cumPromptTokens = cumPromptTokens cum + orZero (promptTokens v),
           cumTotalTokens = cumTotalTokens cum + orZero (totalTokens v)\<rparr>)"

definition zeroUsage :: cumulative_usage where
  "zeroUsage = \<lparr>cumCompletionTokens = 0, cumPromptTokens = 0, cumTotalTokens = 0\<rparr>"

definition onFinishLogs :: "token_usage option list \<Rightarrow> effect list" where
  "onFinishLogs resps = map (\<lambda>u. Log Debug) (filter (\<lambda>u. u \<noteq> None) resps)"

record context_result =
  processedMessages :: "message list"
  filteredFiles :: "file_map option"
  summary :: "string option"
  cumulativeUsage :: cumulative_usage

definition prepareContext ::
  "world \<Rightarrow> request_body \<Rightarrow> message list \<Rightarrow> (thrown + context_result) \<times> effect list" where
  \<comment> \<open>From the start of the outer \<open>try\<close> to the builder options: tool invocations, then
      summary and context selection when there are files and context optimisation is on.\<close>
  "prepareContext w req enhancedMessages =
     (let filePaths = getFilePaths w (case files req of None \<Rightarrow> [] | Some f \<Rightarrow> f) in
      case processToolInvocations w enhancedMessages of
        Inl e \<Rightarrow> (Inl e, [Log Debug, Log Info, ProcessToolInvocations enhancedMessages])
      | Inr processed \<Rightarrow>
          if filePaths \<noteq> [] \<and> contextOptimization req
          then
            (case createSummary w processed of
               (resps1, out1) \<Rightarrow>
                 (let cum1 = foldl addUsage zeroUsage resps1;
                      eff1 = [Log Debug, Log Info, ProcessToolInvocations enhancedMessages,
                              Log Debug, CreateSummary processed] @ onFinishLogs resps1
                  in case out1 of
                       Inl e \<Rightarrow> (Inl e, eff1)
                     | Inr smry \<Rightarrow>
                         (case selectContext w processed smry of
                            (resps2, out2) \<Rightarrow>
                              (let cum2 = foldl addUsage cum1 resps2;
                                   eff2 = eff1 @ [Log Debug, SelectContext processed]
                                            @ onFinishLogs resps2
                               in case out2 of
                                    Inl e \<Rightarrow> (Inl e, eff2)
                                  | Inr ff \<Rightarrow>
                                      (Inr \<lparr>processedMessages = processed, filteredFiles = ff,
                                            summary = smry, cumulativeUsage = cum2\<rparr>,
                                       eff2 @ (if ff \<noteq> None then [Log Debug] else []))))))
          else (Inr \<lparr>processedMessages = processed, filteredFiles = None,
                     summary = None, cumulativeUsage = zeroUsage\<rparr>,
                [Log Debug, Log Info, ProcessToolInvocations enhancedMessages]))"

subsection \<open>The retry and fallback driver\<close>

record walk_state =
  wsCache :: chain_cache
  wsTrace :: "effect list"
  wsLastError :: "thrown option"
  wsResult :: "gen_result option"

definition is_builder_call :: "effect \<Rightarrow> bool" where
  "is_builder_call x = (case x of BuilderCall m p ms \<Rightarrow> True | _ \<Rightarrow> False)"

definition builderCount :: "effect list \<Rightarrow> nat" where
  "builderCount tr = length (filter is_builder_call tr)"

text \<open>
  The \<open>for\<close> loop over the attempts of one model. A successful call sets
  \<open>result\<close> and leaves the loop; a failed one sets \<open>lastError\<close>, and the loop goes
  on only if \<open>shouldRetry\<close> says so and attempts are left. \<open>shouldRetry\<close> is called
  in the \<open>catch\<close> of the attempt, so what it throws leaves both loops: the first
  component of the result is that value. The pause of two seconds before the next attempt
  is a timer and leaves no trace here.
\<close>

function attemptLoop ::
  "world \<Rightarrow> process_env \<Rightarrow> string \<Rightarrow> string \<Rightarrow> message list \<Rightarrow> nat \<Rightarrow> nat \<Rightarrow> walk_state
     \<Rightarrow> thrown option \<times> walk_state"
  where
  "attemptLoop w env currentModel currentProvider msgs maxR attempt st =
     (if attempt \<le> maxR
      then
        (case builderGenerateText w (builderCount (wsTrace st)) currentModel currentProvider msgs of
           Inr r \<Rightarrow>
             (None,
              st\<lparr>wsResult := Some r,
                 wsTrace := wsTrace st @ [BuilderCall currentModel currentProvider msgs, Log Info]\<rparr>)
         | Inl e \<Rightarrow>
             (case shouldRetry env (wsCache st) e attempt currentModel of
                (Inl t, cache') \<Rightarrow>
                  (Some t,
                   st\<lparr>wsLastError := Some e, wsCache := cache',
                      wsTrace := wsTrace st @ [BuilderCall currentModel currentProvider msgs]\<rparr>)
              | (Inr retry, cache') \<Rightarrow>
                  if retry \<and> attempt < maxR
                  then attemptLoop w env currentModel currentProvider msgs maxR (attempt + 1)
                         (st\<lparr>wsLastError := Some e, wsCache := cache',
                             wsTrace := wsTrace st
                               @ [BuilderCall currentModel currentProvider msgs, Log Warn]\<rparr>)
                  else (None,
                        st\<lparr>wsLastError := Some e, wsCache := cache',
                           wsTrace := wsTrace st
                             @ [BuilderCall currentModel currentProvider msgs, Log Error]\<rparr>)))
      else (None, st))"
  by pat_completeness auto
termination
  by (relation "measure (\<lambda>(w, env, m, p, msgs, maxR, attempt, st). Suc maxR - attempt)") auto

definition driverMaxRetries :: "FallbackEntry list \<Rightarrow> string \<Rightarrow> nat" where
  \<comment> \<open>\<open>fallbackConfig?.maxRetries || 2\<close>: no entry, or a bound of 0, gives 2.\<close>
  "driverMaxRetries chain currentModel =
     (case find (\<lambda>f. model f = currentModel) chain of
        None \<Rightarrow> 2
      | Some fallbackConfig \<Rightarrow>
          if maxRetries fallbackConfig = 0 then 2 else maxRetries fallbackConfig)"

text \<open>
  The \<open>while (true)\<close> loop ends only by a result, by an exhausted chain (it then
  throws \<open>lastError || new Error('All models failed')\<close>) or by a throw of
  \<open>shouldRetry\<close>, and with a model string that occurs twice in the chain it need not
  end. \<open>fuel\<close> bounds the number
  of passes of the loop: the outcome \<open>None\<close> says that the loop is still running after
  that many passes, and the state holds what has happened until then.
\<close>

fun walk ::
  "nat \<Rightarrow> world \<Rightarrow> process_env \<Rightarrow> message list \<Rightarrow> string \<Rightarrow> string \<Rightarrow> walk_state
     \<Rightarrow> (thrown + gen_result) option \<times> walk_state"
  where
  "walk 0 w env msgs currentModel currentProvider st = (None, st)"
| "walk (Suc fuel) w env msgs currentModel currentProvider st =
     (case getFallbackChain env (wsCache st) of
        (chain, cache1) \<Rightarrow>
          (case attemptLoop w env currentModel currentProvider msgs
                  (driverMaxRetries chain currentModel) 0
                  (st\<lparr>wsCache := cache1, wsTrace := wsTrace st @ [Log Info]\<rparr>) of
             (Some t, st1) \<Rightarrow> (Some (Inl t), st1)
           | (None, st1) \<Rightarrow>
               (case wsResult st1 of
                  Some r \<Rightarrow> (Some (Inr r), st1)
                | None \<Rightarrow>
                    (case getNextFallback env (wsCache st1) currentModel of
                       (nextFallback, cache2) \<Rightarrow>
                         (case nextFallback of
                            None \<Rightarrow>
                              (Some (Inl (case wsLastError st1 of
                                            None \<Rightarrow> mkError ''All models failed''
                                          | Some e \<Rightarrow>
                                              if truthy e then e else mkError ''All models failed'')),
                               st1\<lparr>wsCache := cache2, wsTrace := wsTrace st1 @ [Log Error]\<rparr>)
                          | Some nf \<Rightarrow>
                              walk fuel w env msgs (model nf) (provider nf)
                                (st1\<lparr>wsCache := cache2, wsTrace := wsTrace st1 @ [Log Info]\<rparr>))))))"

fun callsOf :: "effect list \<Rightarrow> (string \<times> string) list" where
  \<comment> \<open>The builder calls of a trace, in order: model and provider of each.\<close>
  "callsOf [] = []"
| "callsOf (BuilderCall m p ms # tr) = (m, p) # callsOf tr"
| "callsOf (x # tr) = callsOf tr"

subsection \<open>After the walk: accounting, persistence, the response\<close>

definition stripWorkDir :: "string \<Rightarrow> string \<Rightarrow> string" where
  \<comment> \<open>\<open>path.startsWith(WORK_DIR) ? path.replace(WORK_DIR, '') : path\<close>\<close>
  "stripWorkDir workDir path = (if startsWith path workDir then drop (length workDir) path else path)"

definition trackUsage :: "world \<Rightarrow> string option \<Rightarrow> int \<Rightarrow> effect list" where
  \<comment> \<open>\<open>if (userSupabaseId) { try { await db.incrementUsage(...) } catch { ... } }\<close>\<close>
  "trackUsage w userSupabaseId tokens =
     (case userSupabaseId of
        None \<Rightarrow> []
      | Some sid \<Rightarrow>
          if sid = [] then []
          else [IncrementUsage sid ''ai_generation'' tokens 0,
                (case incrementUsage w sid ''ai_generation'' tokens 0 of
                   None \<Rightarrow> Log Info
                 | Some e \<Rightarrow> Log Error)])"

definition finish ::
  "world \<Rightarrow> string option \<Rightarrow> context_result \<Rightarrow> gen_result \<Rightarrow> response \<times> effect list" where
  "finish w userSupabaseId ctx result =
     (let cum = addUsage (cumulativeUsage ctx) (usage result);
          contextFiles =
            (case filteredFiles ctx of
               None \<Rightarrow> []
             | Some ff \<Rightarrow> map (\<lambda>(key, v). stripWorkDir (WORK_DIR w) key) ff)
      in (\<lparr>status = 200,
           body = Generated
                    \<lparr>gbContent = resultText result, gbUsage = cum, gbContextFiles = contextFiles,
                     gbSummary = summary ctx,
                     gbToolCalls = (case toolCalls result of None \<Rightarrow> [] | Some tc \<Rightarrow> tc)\<rparr>\<rparr>,
          [Log Info] @ trackUsage w userSupabaseId (cumTotalTokens cum)))"

definition handleError :: "thrown \<Rightarrow> (thrown + response) \<times> effect list" where
  \<comment> \<open>The \<open>catch\<close> of the outer \<open>try\<close>. It throws itself (\<open>Inl\<close>) when it reads
      \<open>error.message\<close> of \<open>null\<close> or \<open>undefined\<close>, when it calls \<open>includes\<close>
      on a message that is not a string, and when \<open>new Response\<close> refuses the
      status: one outside 200 to 599, or one of 204, 205 and 304, which allow no body.
      The text of the first of these errors is written for \<open>undefined\<close>; for \<open>null\<close>
      it names \<open>null\<close>.\<close>
  "handleError error =
     (case error of
        ThrownNullish \<Rightarrow>
          (Inl (mkError (''Cannot read properties of undefined (reading ''
                          @ [CHR 0x27] @ ''message'' @ [CHR 0x27] @ '')'')), [Log Error])
      | _ \<Rightarrow>
          (case messageOf error of
             OtherMessage t \<Rightarrow>
               (Inl (mkError (if t then ''errorMessage.includes is not a function''
                              else ''error.message?.includes is not a function'')),
                [Log Error])
           | msg \<Rightarrow>
               (let errorMessage0 =
                      (case msg of
                         StringMessage m \<Rightarrow>
                           if m = [] then ascii ''An unexpected error occurred'' else m
                       | _ \<Rightarrow> ascii ''An unexpected error occurred'');
                    badFormat = (str_includes errorMessage0 (ascii ''did not match'')
                                 \<or> str_includes errorMessage0 (ascii ''pattern''));
                    errorResponse =
                      \<lparr>ebMessage =
                         (if badFormat
                          then ascii ''AI returned invalid format. Please try again or simplify your request.''
                          else errorMessage0),
                       ebStatusCode =
                         (case error of
                            ThrownObject e \<Rightarrow>
                              (case statusCode e of None \<Rightarrow> 500 | Some n \<Rightarrow> if n = 0 then 500 else n)
                          | _ \<Rightarrow> 500),
                       ebIsRetryable =
                         (case error of ThrownObject e \<Rightarrow> isRetryable e \<noteq> Some False | _ \<Rightarrow> True),
                       ebProvider =
                         (case error of
                            ThrownObject e \<Rightarrow> strOr (errProvider e) ''unknown''
                          | _ \<Rightarrow> ''unknown'')\<rparr>;
                    eff = (if badFormat then [Log Error, Log Error] else [Log Error])
                in if (case msg of StringMessage m \<Rightarrow> str_includes m (ascii ''API key'') | _ \<Rightarrow> False)
                   then (Inr \<lparr>status = 401,
                              body = Failed (errorResponse\<lparr>ebMessage := ascii ''Invalid or missing API key'',
                                               ebStatusCode := 401, ebIsRetryable := False\<rparr>)\<rparr>, eff)
                   else if ebStatusCode errorResponse < 200 \<or> 599 < ebStatusCode errorResponse
                   then (Inl (mkError (''init['' @ [CHR 0x22] @ ''status'' @ [CHR 0x22]
                                    @ ''] must be in the range of 200 to 599, inclusive.'')),
                         eff)
                   else if ebStatusCode errorResponse \<in> {204, 205, 304}
                   then (Inl (mkError (''Response constructor: Invalid response status code ''
                                    @ (if ebStatusCode errorResponse = 204 then ''204''
                                       else if ebStatusCode errorResponse = 205 then ''205''
                                       else ''304''))),
                         eff)
                   else (Inr \<lparr>status = ebStatusCode errorResponse, body = Failed errorResponse\<rparr>,
                         eff))))"

definition builderMessages :: "message list \<Rightarrow> message list \<Rightarrow> message list \<Rightarrow> message list" where
  \<comment> \<open>\<open>enhancedMessages.length > messages.length ? [...enhancedMessages] : [...processedMessages]\<close>\<close>
  "builderMessages msgs enhancedMessages processed =
     (if length enhancedMessages > length msgs then enhancedMessages else processed)"

definition generation ::
  "nat \<Rightarrow> world \<Rightarrow> process_env \<Rightarrow> request_body \<Rightarrow> string option \<Rightarrow> message list \<Rightarrow> string \<Rightarrow> string
     \<Rightarrow> chain_cache \<Rightarrow> effect list \<Rightarrow> (thrown + response) option \<times> effect list \<times> chain_cache" where
  \<comment> \<open>The outer \<open>try\<close>/\<open>catch\<close>; \<open>tr\<close> holds the effects so far. \<open>Inl\<close>: the
      \<open>catch\<close> itself throws.\<close>
  "generation fuel w env req userSupabaseId enhancedMessages currentModel currentProvider cache tr =
     (case prepareContext w req enhancedMessages of
        (Inl e, eff) \<Rightarrow>
          (case handleError e of (out, heff) \<Rightarrow> (Some out, tr @ eff @ heff, cache))
      | (Inr ctx, eff) \<Rightarrow>
          (case walk fuel w env
                  (builderMessages (messages req) enhancedMessages (processedMessages ctx))
                  currentModel currentProvider
                  \<lparr>wsCache = cache, wsTrace = tr @ eff @ [Log Info],
                   wsLastError = None, wsResult = None\<rparr> of
             (None, st) \<Rightarrow> (None, wsTrace st, wsCache st)
           | (Some (Inl e), st) \<Rightarrow>
               (case handleError e of (out, heff) \<Rightarrow> (Some out, wsTrace st @ heff, wsCache st))
           | (Some (Inr result), st) \<Rightarrow>
               (case finish w userSupabaseId ctx result of
                  (resp, feff) \<Rightarrow> (Some (Inr resp), wsTrace st @ feff, wsCache st))))"

definition afterGuard ::
  "nat \<Rightarrow> world \<Rightarrow> process_env \<Rightarrow> chain_cache \<Rightarrow> string option \<Rightarrow> effect list
     \<Rightarrow> (thrown + response) option \<times> effect list \<times> chain_cache" where
  \<comment> \<open>The handler from \<open>request.json()\<close> on. \<open>Inl\<close>: the handler throws (body or
      cookie parsing, a default read from an empty chain, a throw of the outer
      \<open>catch\<close>); \<open>Inr\<close>: the response it returns.\<close>
  "afterGuard fuel w env cache userSupabaseId tr =
     (case requestJson w of
        Inl e \<Rightarrow> (Some (Inl e), tr, cache)
      | Inr req \<Rightarrow>
          (case getDefaultModel env cache of
             (defaultFallback, cache1) \<Rightarrow>
               (case orDefault (requestedModel req) ''model'' (map_option model defaultFallback) of
                  Inl e \<Rightarrow> (Some (Inl e), tr, cache1)
                | Inr currentModel \<Rightarrow>
                    (case orDefault (requestedProvider req) ''provider''
                            (map_option provider defaultFallback) of
                       Inl e \<Rightarrow> (Some (Inl e), tr, cache1)
                     | Inr currentProvider \<Rightarrow>
                         (case cookieError w of
                            Some e \<Rightarrow> (Some (Inl e), tr, cache1)
                          | None \<Rightarrow>
                              (case planningStage w req currentModel currentProvider of
                                 (enhancedMessages, peff) \<Rightarrow>
                                   generation fuel w env req userSupabaseId enhancedMessages
                                     currentModel currentProvider cache1 (tr @ peff)))))))"

definition chatAction ::
  "nat \<Rightarrow> world \<Rightarrow> process_env \<Rightarrow> chain_cache
     \<Rightarrow> (thrown + response) option \<times> effect list \<times> chain_cache"
  where
  "chatAction fuel w env cache =
     (case requireAuth w of
        Inl e \<Rightarrow> (Some (Inl e), [RequireAuth], cache)
      | Inr userId \<Rightarrow>
          (case usageGuard w userId of
             (GuardReject resp, geff) \<Rightarrow> (Some (Inr resp), [RequireAuth, Log Info] @ geff, cache)
           | (GuardPass userSubscriptionTier userSupabaseId, geff) \<Rightarrow>
               afterGuard fuel w env cache userSupabaseId ([RequireAuth, Log Info] @ geff)))"

section \<open>Notions used in the statements\<close>

text \<open>
  The definitions of this section belong to the statements, not to the program: what it
  means that a message contains a marker whatever the case of its letters, the chain an
  environment selects, a sequence of steps that touch the registry, a world in which every
  builder call fails with a retryable error, the builder calls a chain asks for, and the
  place of a persistence write in a trace.
\<close>

definition sameIgnoringCase :: "nat \<Rightarrow> char \<Rightarrow> bool" where
  \<comment> \<open>The code unit is the character, or the capital of a small letter, or, for \<open>k\<close>,
      the Kelvin sign U+212A, whose small letter is \<open>k\<close>.\<close>
  "sameIgnoringCase u c =
     (u = of_char c
      \<or> (97 \<le> (of_char c :: nat) \<and> (of_char c :: nat) \<le> 122 \<and> u + 32 = of_char c)
      \<or> (c = CHR ''k'' \<and> u = 8490))"

definition containsIgnoringCase :: "js_message \<Rightarrow> string \<Rightarrow> bool" where
  \<comment> \<open>The message is a string, and some stretch of it equals the marker up to the case of
      its letters.\<close>
  "containsIgnoringCase msg marker =
     (case msg of
        StringMessage m \<Rightarrow>
          (\<exists>pre mid post. m = pre @ mid @ post \<and> list_all2 sameIgnoringCase mid marker)
      | _ \<Rightarrow> False)"

definition plainMarker :: "string \<Rightarrow> bool" where
  \<comment> \<open>A marker made of ASCII characters other than capital letters that does not end in
      \<open>i\<close>: lower-casing a message cannot produce such a marker across the two code units
      that the dotted capital I becomes.\<close>
  "plainMarker m =
     (list_all (\<lambda>c. (of_char c :: nat) < 128 \<and> \<not> (65 \<le> (of_char c :: nat) \<and> (of_char c :: nat) \<le> 90)) m
      \<and> (m = [] \<or> last m \<noteq> CHR ''i''))"

definition variableOr :: "process_env \<Rightarrow> string \<Rightarrow> string \<Rightarrow> string" where
  \<comment> \<open>The value of the variable when it is set and not empty, the default otherwise.\<close>
  "variableOr env name dflt = (case env name of Some (c # cs) \<Rightarrow> c # cs | _ \<Rightarrow> dflt)"

definition configuredChain :: "process_env \<Rightarrow> FallbackEntry list" where
  \<comment> \<open>The primary pair and the three fallback pairs the environment selects, each
      variable with its default, and the retry bounds 2, 2, 1 and 1.\<close>
  "configuredChain env =
     [\<lparr>model = variableOr env ''PRIMARY_MODEL'' ''qwen/qwen3-coder'',
       provider = variableOr env ''PRIMARY_PROVIDER'' ''OpenRouter'', maxRetries = 2\<rparr>,
      \<lparr>model = variableOr env ''FALLBACK_MODEL_1'' ''gemini-2.5-flash'',
       provider = variableOr env ''FALLBACK_PROVIDER_1'' ''OpenRouter'', maxRetries = 2\<rparr>,
      \<lparr>model = variableOr env ''FALLBACK_MODEL_2'' ''x-ai/grok-4-fast'',
       provider = variableOr env ''FALLBACK_PROVIDER_2'' ''OpenRouter'', maxRetries = 1\<rparr>,
      \<lparr>model = variableOr env ''FALLBACK_MODEL_3'' ''qwen/qwen3-coder-480b-a35b-instruct'',
       provider = variableOr env ''FALLBACK_PROVIDER_3'' ''Novita'', maxRetries = 1\<rparr>]"

text \<open>
  One step of the process that touches the registry: a call of one of its exported
  functions, or a request handled by \<open>chatAction\<close> (with a bound on the passes of its
  walk). \<open>processStep\<close> is the cache the step leaves.
\<close>

datatype process_step =
    CallGetFallbackChain
  | CallGetDefaultModel
  | CallGetNextFallback string
  | CallShouldRetry thrown nat string
  | HandleRequest nat world

fun processStep :: "process_env \<Rightarrow> chain_cache \<Rightarrow> process_step \<Rightarrow> chain_cache" where
  "processStep env cache CallGetFallbackChain = snd (getFallbackChain env cache)"
| "processStep env cache CallGetDefaultModel = snd (getDefaultModel env cache)"
| "processStep env cache (CallGetNextFallback m) = snd (getNextFallback env cache m)"
| "processStep env cache (CallShouldRetry e n m) = snd (shouldRetry env cache e n m)"
| "processStep env cache (HandleRequest fuel w) = snd (snd (chatAction fuel w env cache))"

fun processRun :: "chain_cache \<Rightarrow> (process_env \<times> process_step) list \<Rightarrow> chain_cache" where
  "processRun cache [] = cache"
| "processRun cache ((env, c) # rest) = processRun (processStep env cache c) rest"

definition allFailRetryable :: "world \<Rightarrow> bool" where
  \<comment> \<open>Every builder call, whenever and for whatever model it is made, throws an error
      that is classified as retryable.\<close>
  "allFailRetryable w =
     (\<forall>n m p ms. \<exists>e. builderGenerateText w n m p ms = Inl e \<and> isRetryableError e)"

definition callsFor :: "FallbackEntry list \<Rightarrow> (string \<times> string) list" where
  \<comment> \<open>\<open>maxRetries + 1\<close> calls for each entry, in the order of the entries.\<close>
  "callsFor entries = concat (map (\<lambda>x. replicate (maxRetries x + 1) (model x, provider x)) entries)"

definition driverEffect :: "effect \<Rightarrow> bool" where
  \<comment> \<open>An outbound builder call or a log line.\<close>
  "driverEffect x =
     (case x of Log l \<Rightarrow> True | BuilderCall m p ms \<Rightarrow> True | _ \<Rightarrow> False)"

definition isIncrementUsage :: "effect \<Rightarrow> bool" where
  "isIncrementUsage x = (case x of IncrementUsage u t n k \<Rightarrow> True | _ \<Rightarrow> False)"

definition afterSuccessfulCall :: "world \<Rightarrow> effect list \<Rightarrow> effect \<Rightarrow> bool" where
  \<comment> \<open>\<open>x\<close> comes after a builder call that returned a result, and nothing was
      persisted before that call.\<close>
  "afterSuccessfulCall w tr x =
     (\<exists>pre m p ms r post.
        tr = pre @ BuilderCall m p ms # post
        \<and> builderGenerateText w (builderCount pre) m p ms = Inr r
        \<and> x \<in> set post
        \<and> (\<forall>y \<in> set pre. \<not> isIncrementUsage y))"

definition planningThrows :: "world \<Rightarrow> message \<Rightarrow> bool" where
  \<comment> \<open>The \<open>try\<close> block of the planning stage throws: in the extraction of the
      request text, in the planning call, or on an empty planning response.\<close>
  "planningThrows w lum =
     (case extractPropertiesFromMessage w lum of
        Inl e \<Rightarrow> True
      | Inr cleanContent \<Rightarrow>
          (case planningGenerateText w (planningPrompt cleanContent) of
             Inl e \<Rightarrow> True
           | Inr planningResult \<Rightarrow>
               strOr (reasoning planningResult) (resultText planningResult) = []))"

section \<open>Example inputs\<close>

text \<open>
  A request for a to-do app in build mode, and worlds in which the collaborators answer in
  fixed ways. \<open>unsetEnv\<close> is a process environment without any of the variables;
  \<open>duplicateEnv\<close> sets the primary model to the default model of the last entry.
  Error messages are written as the code units of ASCII strings.
\<close>

definition unsetEnv :: process_env where
  "unsetEnv = Map.empty"

definition duplicateEnv :: process_env where
  "duplicateEnv = Map.empty(''PRIMARY_MODEL'' \<mapsto> ''qwen/qwen3-coder-480b-a35b-instruct'')"

definition exampleRequest :: request_body where
  "exampleRequest =
     \<lparr>messages = [\<lparr>role = ''user'', content = ''todo app''\<rparr>], files = None,
      contextOptimization = False, chatMode = ''build'', useKimiPlanning = None,
      requestedModel = None, requestedProvider = None\<rparr>"

definition planningAnswer :: gen_result where
  "planningAnswer =
     \<lparr>resultText = ''plan'', reasoning = None,
      usage = Some \<lparr>completionTokens = Some 10, promptTokens = Some 5, totalTokens = Some 15\<rparr>,
      toolCalls = None\<rparr>"

definition builderAnswer :: gen_result where
  "builderAnswer =
     \<lparr>resultText = ''html'', reasoning = None,
      usage = Some \<lparr>completionTokens = Some 20, promptTokens = Some 8, totalTokens = Some 28\<rparr>,
      toolCalls = None\<rparr>"

definition exampleWorld :: world where
  "exampleWorld =
     \<lparr>requireAuth = Inr ''u1'',
      getAuthenticatedUser = Inr \<lparr>subscriptionTier = ''pro'', supabaseUserId = Some ''s1''\<rparr>,
      canPerformAction = (\<lambda>u a. Inr \<lparr>allowed = True, reason = None\<rparr>),
      requestJson = Inr exampleRequest,
      cookieError = None,
      extractPropertiesFromMessage = (\<lambda>m. Inr (content m)),
      planningGenerateText = (\<lambda>p. Inr planningAnswer),
      processToolInvocations = (\<lambda>ms. Inr ms),
      getFilePaths = (\<lambda>f. map fst f),
      createSummary = (\<lambda>ms. ([], Inr None)),
      selectContext = (\<lambda>ms s. ([], Inr None)),
      builderGenerateText = (\<lambda>n m p ms. Inr builderAnswer),
      incrementUsage = (\<lambda>u t n k. None),
      WORK_DIR = ''/home/project''\<rparr>"

definition overloadedWorld :: world where
  "overloadedWorld = exampleWorld\<lparr>builderGenerateText := (\<lambda>n m p ms. Inl (mkError ''HTTP 503''))\<rparr>"

definition planlessWorld :: world where
  "planlessWorld = exampleWorld\<lparr>planningGenerateText := (\<lambda>p. Inl (mkError ''planner down''))\<rparr>"

definition limitedWorld :: world where
  "limitedWorld =
     exampleWorld\<lparr>canPerformAction := (\<lambda>u a. Inr \<lparr>allowed = False, reason = None\<rparr>)\<rparr>"

definition anonymousWorld :: world where
  "anonymousWorld = exampleWorld\<lparr>getAuthenticatedUser := Inl (mkError ''user lookup failed'')\<rparr>"

definition uncheckedWorld :: world where
  "uncheckedWorld = exampleWorld\<lparr>canPerformAction := (\<lambda>u a. Inl (mkError ''check failed''))\<rparr>"

definition initialState :: "chain_cache \<Rightarrow> walk_state" where
  "initialState cache = \<lparr>wsCache = cache, wsTrace = [], wsLastError = None, wsResult = None\<rparr>"

definition silentWorld :: world where
  \<comment> \<open>Every builder call throws \<open>undefined\<close>.\<close>
  "silentWorld = exampleWorld\<lparr>builderGenerateText := (\<lambda>n m p ms. Inl ThrownNullish)\<rparr>"

definition numberedError :: thrown where
  \<comment> \<open>A thrown object whose message is a number, as in \<open>throw { message: 503 }\<close>.\<close>
  "numberedError =
     ThrownObject \<lparr>message = OtherMessage True, statusCode = None, isRetryable = None,
                   errProvider = None\<rparr>"

definition kelvinError :: thrown where
  \<comment> \<open>An error with the message \<open>NETWOR\<close> followed by the Kelvin sign U+212A.\<close>
  "kelvinError =
     ThrownObject \<lparr>message = StringMessage (ascii ''NETWOR'' @ [8490]), statusCode = None,
                   isRetryable = None, errProvider = None\<rparr>"

definition customEnv :: process_env where
  \<comment> \<open>Five of the eight variables are set, one of them to the empty string.\<close>
  "customEnv =
     Map.empty(''PRIMARY_MODEL'' \<mapsto> ''gpt-4o'', ''PRIMARY_PROVIDER'' \<mapsto> ''OpenAI'',
               ''FALLBACK_MODEL_1'' \<mapsto> [], ''FALLBACK_PROVIDER_2'' \<mapsto> ''Google'',
               ''FALLBACK_MODEL_3'' \<mapsto> ''claude-3'')"


section \<open>Lemmas\<close>

subsection \<open>Lower-casing and the markers\<close>

lemma startsWith_prefix: "startsWith s p = prefix p s"
  by (induction s p rule: startsWith.induct) auto

lemma str_includes_sublist: "str_includes s needle = sublist needle s"
  by (induction s) (simp_all add: startsWith_prefix sublist_Cons_right)

lemma plainMarker_tl: "plainMarker (c # cs) \<Longrightarrow> plainMarker cs"
  by (cases cs) (auto simp: plainMarker_def)

lemma of_char_k: "((of_char c :: nat) = 107) = (c = CHR ''k'')"
proof
  assume "(of_char c :: nat) = 107"
  then have "(of_char c :: nat) = of_char (CHR ''k'')" by simp
  then show "c = CHR ''k''" by (simp only: of_char_eq_iff)
qed simp

lemma of_char_i: "((of_char c :: nat) = 105) = (c = CHR ''i'')"
proof
  assume "(of_char c :: nat) = 105"
  then have "(of_char c :: nat) = of_char (CHR ''i'')" by simp
  then show "c = CHR ''i''" by (simp only: of_char_eq_iff)
qed simp

lemma window_Cons:
  "(\<exists>mid post. u # us = mid @ post \<and> list_all2 R mid (c # cs))
     = (R u c \<and> (\<exists>mid post. us = mid @ post \<and> list_all2 R mid cs))"
  by (auto simp: list_all2_Cons2 Cons_eq_append_conv)

lemma prefix_lower_iff:
  "plainMarker m \<Longrightarrow>
   prefix (map Some (ascii m)) (toLowerCase s)
     = (\<exists>mid post. s = mid @ post \<and> list_all2 sameIgnoringCase mid m)"
proof (induction m arbitrary: s)
  case Nil
  then show ?case by (simp add: ascii_def)
next
  case (Cons c cs)
  have pcs: "plainMarker cs"
    using Cons.prems by (rule plainMarker_tl)
  have c: "(of_char c :: nat) < 128" "\<not> (65 \<le> (of_char c :: nat) \<and> (of_char c :: nat) \<le> 90)"
    using Cons.prems by (simp_all add: plainMarker_def)
  have last: "cs = [] \<Longrightarrow> c \<noteq> CHR ''i''"
    using Cons.prems by (simp add: plainMarker_def)
  show ?case
  proof (cases s)
    case Nil
    then show ?thesis by (simp add: ascii_def toLowerCase_def)
  next
    case (Cons u us)
    have ih: "prefix (map Some (ascii cs)) (toLowerCase us)
              = (\<exists>mid post. us = mid @ post \<and> list_all2 sameIgnoringCase mid cs)"
      using pcs by (rule Cons.IH)
    have lower: "toLowerCase (u # us) = toLowerUnit u @ toLowerCase us"
      by (simp add: toLowerCase_def)
    have marker: "map Some (ascii (c # cs)) = Some (of_char c) # map Some (ascii cs)"
      by (simp add: ascii_def)
    have none: "\<not> prefix (map Some (ascii cs)) (None # xs) \<longleftrightarrow> cs \<noteq> []" for xs
      by (cases cs) (simp_all add: ascii_def)
    consider (cap) "65 \<le> u \<and> u \<le> 90" | (low) "u < 128" "\<not> (65 \<le> u \<and> u \<le> 90)"
      | (kelvin) "u = 8490" | (doti) "u = 304" | (other) "128 \<le> u" "u \<noteq> 8490" "u \<noteq> 304"
      by linarith
    then have "prefix (map Some (ascii (c # cs))) (toLowerUnit u @ toLowerCase us)
               = (sameIgnoringCase u c
                  \<and> (\<exists>mid post. us = mid @ post \<and> list_all2 sameIgnoringCase mid cs))"
    proof cases
      case cap
      then show ?thesis
        using c unfolding marker ih [symmetric]
        by (auto simp: toLowerUnit_def sameIgnoringCase_def)
    next
      case low
      then show ?thesis
        using c unfolding marker ih [symmetric]
        by (auto simp: toLowerUnit_def sameIgnoringCase_def)
    next
      case kelvin
      then show ?thesis
        using c unfolding marker ih [symmetric]
        by (auto simp: toLowerUnit_def sameIgnoringCase_def of_char_k)
    next
      case doti
      have "\<not> sameIgnoringCase u c"
        using doti c by (auto simp: sameIgnoringCase_def)
      moreover have "\<not> prefix (map Some (ascii (c # cs))) (toLowerUnit u @ toLowerCase us)"
        using doti last none [of "toLowerCase us"] unfolding marker
        by (auto simp: toLowerUnit_def of_char_i)
      ultimately show ?thesis by simp
    next
      case other
      have "\<not> sameIgnoringCase u c"
        using other c by (auto simp: sameIgnoringCase_def)
      moreover have "\<not> prefix (map Some (ascii (c # cs))) (toLowerUnit u @ toLowerCase us)"
        using other unfolding marker by (auto simp: toLowerUnit_def)
      ultimately show ?thesis by simp
    qed
    then show ?thesis
      unfolding Cons lower window_Cons .
  qed
qed

lemma suffix_Cons:
  "(\<exists>pre suf. u # us = pre @ suf \<and> P suf) = (P (u # us) \<or> (\<exists>pre suf. us = pre @ suf \<and> P suf))"
  by (auto simp: Cons_eq_append_conv)

lemma sublist_lower_iff:
  assumes "m \<noteq> []"
  shows "sublist (map Some (ascii m)) (toLowerCase s)
         = (\<exists>pre suf. s = pre @ suf \<and> prefix (map Some (ascii m)) (toLowerCase suf))"
proof (induction s)
  case Nil
  then show ?case using assms by (simp add: toLowerCase_def ascii_def)
next
  case (Cons u us)
  obtain c cs where m: "m = c # cs"
    using assms by (cases m) auto
  have marker: "map Some (ascii m) = Some (of_char c) # map Some (ascii cs)"
    by (simp add: m ascii_def)
  have lower: "toLowerCase (u # us) = toLowerUnit u @ toLowerCase us"
    by (simp add: toLowerCase_def)
  have "sublist (map Some (ascii m)) (toLowerUnit u @ toLowerCase us)
        = (prefix (map Some (ascii m)) (toLowerUnit u @ toLowerCase us)
           \<or> sublist (map Some (ascii m)) (toLowerCase us))"
    unfolding marker by (auto simp: toLowerUnit_def sublist_Cons_right)
  then show ?case
    unfolding suffix_Cons lower Cons.IH by simp
qed

lemma includes_lower_iff:
  assumes "plainMarker m" "m \<noteq> []"
  shows "str_includes (toLowerCase s) (map Some (ascii m))
         = (\<exists>pre mid post. s = pre @ mid @ post \<and> list_all2 sameIgnoringCase mid m)"
  unfolding str_includes_sublist sublist_lower_iff [OF assms(2)] prefix_lower_iff [OF assms(1)]
  by auto

lemma markers_plain:
  "list_all (\<lambda>m. plainMarker m \<and> m \<noteq> [])
     [''overloaded'', ''rate limit'', ''timeout'', ''network'', ''429'', ''503'', ''500'']"
  by code_simp

lemma isRetryableError_iff:
  "isRetryableError error
     = (\<exists>marker \<in> set [''overloaded'', ''rate limit'', ''timeout'', ''network'', ''429'', ''503'', ''500''].
          containsIgnoringCase (messageOf error) marker)"
proof (cases "messageOf error")
  case NoMessage
  then show ?thesis
    by (simp add: isRetryableError_def containsIgnoringCase_def retryableErrors_def ascii_def)
next
  case (OtherMessage t)
  then show ?thesis
    by (simp add: isRetryableError_def containsIgnoringCase_def retryableErrors_def ascii_def)
next
  case (StringMessage s)
  have inc: "\<And>m. plainMarker m \<and> m \<noteq> [] \<Longrightarrow>
      str_includes (toLowerCase s) (map Some (ascii m)) = containsIgnoringCase (StringMessage s) m"
    by (simp add: includes_lower_iff containsIgnoringCase_def)
  show ?thesis
    using markers_plain unfolding StringMessage
    by (simp add: isRetryableError_def retryableErrors_def StringMessage inc)
qed

subsection \<open>The registry and the attempts of one model\<close>

lemma getFallbackChain_Some: "getFallbackChain env (Some chain) = (chain, Some chain)"
  by (simp add: getFallbackChain_def)

lemma getFallbackChain_None: "getFallbackChain env None = (buildChain env, Some (buildChain env))"
  by (simp add: getFallbackChain_def Let_def)

lemma getDefaultModel_snd: "snd (getDefaultModel env cache) = snd (getFallbackChain env cache)"
  by (simp add: getDefaultModel_def split: prod.splits)

lemma getNextFallback_snd: "snd (getNextFallback env cache m) = snd (getFallbackChain env cache)"
  by (simp add: getNextFallback_def Let_def split: prod.splits)

lemma shouldRetry_snd: "snd (shouldRetry env cache e n m) = snd (getFallbackChain env cache)"
  by (simp add: shouldRetry_def split: prod.splits option.splits js_message.splits)

lemma findIndex_nonneg: "findIndex P xs \<ge> - 1"
  by (induction xs) (auto simp: Let_def)

lemma findIndex_none: "(findIndex P xs = - 1) = (\<forall>x \<in> set xs. \<not> P x)"
proof (induction xs)
  case Nil
  then show ?case by simp
next
  case (Cons a xs)
  have "findIndex P xs + 1 \<noteq> - 1"
    using findIndex_nonneg [of P xs] by arith
  with Cons show ?case by (auto simp: Let_def)
qed

lemma findIndex_first:
  "\<forall>x \<in> set pre. \<not> P x \<Longrightarrow> P e \<Longrightarrow> findIndex P (pre @ e # rest) = int (length pre)"
  by (induction pre) (auto simp: Let_def)

declare attemptLoop.simps [simp del]

lemma callsOf_append: "callsOf (xs @ ys) = callsOf xs @ callsOf ys"
  by (induction xs rule: callsOf.induct) simp_all

lemma builderCount_callsOf: "builderCount tr = length (callsOf tr)"
  by (induction tr rule: callsOf.induct) (simp_all add: builderCount_def is_builder_call_def)

lemma shouldRetry_Some:
  "shouldRetry env (Some chain) e n m =
     (case find (\<lambda>f. model f = m) chain of
        None \<Rightarrow> Inr False
      | Some fb \<Rightarrow>
          (case messageOf e of
             OtherMessage t \<Rightarrow> Inl (mkError ''error?.message?.toLowerCase is not a function'')
           | _ \<Rightarrow> Inr (isRetryableError e \<and> n < maxRetries fb)),
      Some chain)"
  by (simp add: shouldRetry_def getFallbackChain_Some split: option.splits js_message.splits)

lemma isRetryableError_message: "isRetryableError e \<Longrightarrow> messageOf e \<noteq> OtherMessage t"
  by (auto simp: isRetryableError_def retryableErrors_def ascii_def)

lemma shouldRetry_retryable:
  assumes "isRetryableError e" and "find (\<lambda>f. model f = m) chain = Some fb"
  shows "shouldRetry env (Some chain) e n m = (Inr (n < maxRetries fb), Some chain)"
  using assms isRetryableError_message [OF assms(1)]
  by (simp add: shouldRetry_Some split: js_message.splits)

lemma attemptLoop_success:
  assumes "builderGenerateText w (builderCount (wsTrace st)) m p msgs = Inr r" and "attempt \<le> maxR"
  shows "attemptLoop w env m p msgs maxR attempt st
         = (None, st\<lparr>wsResult := Some r, wsTrace := wsTrace st @ [BuilderCall m p msgs, Log Info]\<rparr>)"
  using assms by (subst attemptLoop.simps) simp

lemma attemptLoop_throw:
  assumes "builderGenerateText w (builderCount (wsTrace st)) m p msgs = Inl e" and "attempt \<le> maxR"
    and "shouldRetry env (wsCache st) e attempt m = (Inl t, cache')"
  shows "attemptLoop w env m p msgs maxR attempt st
         = (Some t, st\<lparr>wsLastError := Some e, wsCache := cache',
                       wsTrace := wsTrace st @ [BuilderCall m p msgs]\<rparr>)"
  using assms by (subst attemptLoop.simps) simp

lemma attemptLoop_retry:
  assumes "builderGenerateText w (builderCount (wsTrace st)) m p msgs = Inl e" and "attempt < maxR"
    and "shouldRetry env (wsCache st) e attempt m = (Inr True, cache')"
  shows "attemptLoop w env m p msgs maxR attempt st
         = attemptLoop w env m p msgs maxR (attempt + 1)
             (st\<lparr>wsLastError := Some e, wsCache := cache',
                 wsTrace := wsTrace st @ [BuilderCall m p msgs, Log Warn]\<rparr>)"
  using assms by (subst attemptLoop.simps) simp

lemma attemptLoop_stop:
  assumes "builderGenerateText w (builderCount (wsTrace st)) m p msgs = Inl e" and "attempt \<le> maxR"
    and "shouldRetry env (wsCache st) e attempt m = (Inr retry, cache')"
    and "\<not> (retry \<and> attempt < maxR)"
  shows "attemptLoop w env m p msgs maxR attempt st
         = (None, st\<lparr>wsLastError := Some e, wsCache := cache',
                     wsTrace := wsTrace st @ [BuilderCall m p msgs, Log Error]\<rparr>)"
  using assms by (subst attemptLoop.simps) auto

lemma attemptLoop_done:
  assumes "\<not> attempt \<le> maxR"
  shows "attemptLoop w env m p msgs maxR attempt st = (None, st)"
  using assms by (subst attemptLoop.simps) simp

lemma attemptLoop_all_fail:
  assumes fail: "allFailRetryable w"
    and found: "find (\<lambda>f. model f = m) chain = Some entry"
    and bound: "maxRetries entry \<le> maxR"
  shows "wsCache st = Some chain \<Longrightarrow> attempt \<le> maxRetries entry \<Longrightarrow>
     fst (attemptLoop w env m p msgs maxR attempt st) = None
   \<and> wsResult (snd (attemptLoop w env m p msgs maxR attempt st)) = wsResult st
   \<and> wsCache (snd (attemptLoop w env m p msgs maxR attempt st)) = Some chain
   \<and> callsOf (wsTrace (snd (attemptLoop w env m p msgs maxR attempt st)))
       = callsOf (wsTrace st) @ replicate (maxRetries entry + 1 - attempt) (m, p)
   \<and> (\<exists>e. wsLastError (snd (attemptLoop w env m p msgs maxR attempt st)) = Some e
          \<and> isRetryableError e
          \<and> builderGenerateText w (length (callsOf (wsTrace st)) + (maxRetries entry - attempt))
                m p msgs = Inl e)"
proof (induction "maxRetries entry - attempt" arbitrary: attempt st)
  case 0
  then have att: "attempt = maxRetries entry" by simp
  obtain e where e: "builderGenerateText w (length (callsOf (wsTrace st))) m p msgs = Inl e"
      "isRetryableError e"
    using fail unfolding allFailRetryable_def by blast
  have sr: "shouldRetry env (wsCache st) e attempt m = (Inr False, Some chain)"
    using 0 att shouldRetry_retryable [OF e(2) found] by simp
  have fin: "attemptLoop w env m p msgs maxR attempt st
             = (None, st\<lparr>wsLastError := Some e, wsCache := Some chain,
                  wsTrace := wsTrace st @ [BuilderCall m p msgs, Log Error]\<rparr>)"
    using att e bound by (intro attemptLoop_stop [OF _ _ sr]) (simp_all add: builderCount_callsOf)
  show ?case
    unfolding fin using att e by (simp add: callsOf_append)
next
  case (Suc k)
  then have att: "attempt < maxRetries entry" "attempt < maxR" "attempt \<le> maxR"
    using bound by simp_all
  obtain e where e: "builderGenerateText w (length (callsOf (wsTrace st))) m p msgs = Inl e"
      "isRetryableError e"
    using fail unfolding allFailRetryable_def by blast
  let ?st1 = "st\<lparr>wsLastError := Some e, wsCache := Some chain,
                 wsTrace := wsTrace st @ [BuilderCall m p msgs, Log Warn]\<rparr>"
  have sr: "shouldRetry env (wsCache st) e attempt m = (Inr True, Some chain)"
    using Suc.prems att shouldRetry_retryable [OF e(2) found] by simp
  have step: "attemptLoop w env m p msgs maxR attempt st
              = attemptLoop w env m p msgs maxR (attempt + 1) ?st1"
    using att e by (intro attemptLoop_retry [OF _ _ sr]) (simp_all add: builderCount_callsOf)
  have k: "k = maxRetries entry - (attempt + 1)"
    using Suc.hyps(2) by simp
  have ih: "fst (attemptLoop w env m p msgs maxR (attempt + 1) ?st1) = None
   \<and> wsResult (snd (attemptLoop w env m p msgs maxR (attempt + 1) ?st1)) = wsResult ?st1
   \<and> wsCache (snd (attemptLoop w env m p msgs maxR (attempt + 1) ?st1)) = Some chain
   \<and> callsOf (wsTrace (snd (attemptLoop w env m p msgs maxR (attempt + 1) ?st1)))
       = callsOf (wsTrace ?st1) @ replicate (maxRetries entry + 1 - (attempt + 1)) (m, p)
   \<and> (\<exists>e. wsLastError (snd (attemptLoop w env m p msgs maxR (attempt + 1) ?st1)) = Some e
          \<and> isRetryableError e
          \<and> builderGenerateText w (length (callsOf (wsTrace ?st1)) + (maxRetries entry - (attempt + 1)))
                m p msgs = Inl e)"
    using att by (intro Suc.hyps(1) [OF k]) simp_all
  have rep: "replicate (maxRetries entry + 1 - attempt) (m, p)
             = (m, p) # replicate (maxRetries entry + 1 - (attempt + 1)) (m, p)"
    using att by (simp add: Suc_diff_le flip: replicate_Suc)
  have idx: "length (callsOf (wsTrace ?st1)) + (maxRetries entry - (attempt + 1))
             = length (callsOf (wsTrace st)) + (maxRetries entry - attempt)"
    using att by (simp add: callsOf_append)
  show ?case
    unfolding step rep using ih unfolding idx by (simp add: callsOf_append)
qed

lemma getNextFallback_at:
  assumes "\<forall>x \<in> set pre. model x \<noteq> m" and "model e = m"
  shows "getNextFallback env (Some (pre @ e # rest)) m
         = (case rest of [] \<Rightarrow> None | nxt # _ \<Rightarrow> Some nxt, Some (pre @ e # rest))"
proof -
  have "findIndex (\<lambda>f. model f = m) (pre @ e # rest) = int (length pre)"
    using assms by (intro findIndex_first) auto
  then show ?thesis
    by (cases rest) (simp_all add: getNextFallback_def getFallbackChain_Some Let_def nth_append)
qed

lemma find_at:
  assumes "\<forall>x \<in> set pre. \<not> P x" and "P e"
  shows "find P (pre @ e # rest) = Some e"
  using assms by (induction pre) simp_all

lemma driverMaxRetries_ge:
  "find (\<lambda>f. model f = m) chain = Some entry \<Longrightarrow> maxRetries entry \<le> driverMaxRetries chain m"
  by (simp add: driverMaxRetries_def)

lemma isRetryableError_truthy: "isRetryableError e \<Longrightarrow> truthy e"
  by (cases e) (auto simp: isRetryableError_def messageOf_def truthy_def retryableErrors_def ascii_def)

lemma walk_all_fail:
  assumes fail: "allFailRetryable w"
  shows "distinct (map model (pre @ e # rest)) \<Longrightarrow> wsCache st = Some (pre @ e # rest)
     \<Longrightarrow> wsResult st = None \<Longrightarrow> length rest < fuel \<Longrightarrow>
     \<exists>st' err. walk fuel w env msgs (model e) (provider e) st = (Some (Inl err), st')
        \<and> callsOf (wsTrace st') = callsOf (wsTrace st) @ callsFor (e # rest)
        \<and> builderGenerateText w (length (callsOf (wsTrace st')) - 1)
             (model (last (e # rest))) (provider (last (e # rest))) msgs = Inl err"
proof (induction rest arbitrary: pre e st fuel)
  case Nil
  let ?chain = "pre @ [e]"
  obtain f where fuel: "fuel = Suc f"
    using Nil.prems(4) by (cases fuel) auto
  let ?st0 = "st\<lparr>wsCache := Some ?chain, wsTrace := wsTrace st @ [Log Info]\<rparr>"
  let ?al = "attemptLoop w env (model e) (provider e) msgs (driverMaxRetries ?chain (model e)) 0 ?st0"
  define st1 where "st1 = snd ?al"
  have nopre: "\<forall>x \<in> set pre. model x \<noteq> model e"
    using Nil.prems(1) by (auto simp: image_iff)
  have found: "find (\<lambda>f. model f = model e) ?chain = Some e"
    using nopre by (intro find_at) auto
  have al: "fst ?al = None \<and> wsResult st1 = wsResult ?st0 \<and> wsCache st1 = Some ?chain
      \<and> callsOf (wsTrace st1) = callsOf (wsTrace ?st0) @ replicate (maxRetries e + 1 - 0) (model e, provider e)
      \<and> (\<exists>err. wsLastError st1 = Some err \<and> isRetryableError err
          \<and> builderGenerateText w (length (callsOf (wsTrace ?st0)) + (maxRetries e - 0))
                (model e) (provider e) msgs = Inl err)"
    unfolding st1_def
    by (rule attemptLoop_all_fail [OF fail found driverMaxRetries_ge [OF found]]) simp_all
  then obtain err where err: "wsLastError st1 = Some err" "truthy err"
      "builderGenerateText w (length (callsOf (wsTrace st)) + maxRetries e) (model e) (provider e) msgs = Inl err"
    by (auto simp: callsOf_append isRetryableError_truthy)
  have pair: "?al = (None, st1)"
    using al by (simp add: prod_eq_iff st1_def)
  have nf: "getNextFallback env (Some ?chain) (model e) = (None, Some ?chain)"
    using getNextFallback_at [OF nopre refl, of env "[]"] by simp
  have "walk fuel w env msgs (model e) (provider e) st
        = (Some (Inl err), st1\<lparr>wsCache := Some ?chain, wsTrace := wsTrace st1 @ [Log Error]\<rparr>)"
    unfolding fuel using Nil.prems(2,3) al err nf
    by (subst walk.simps) (simp add: getFallbackChain_Some pair)
  moreover have "callsOf (wsTrace (st1\<lparr>wsCache := Some ?chain, wsTrace := wsTrace st1 @ [Log Error]\<rparr>))
        = callsOf (wsTrace st) @ callsFor [e]"
    using al by (simp add: callsOf_append callsFor_def)
  ultimately show ?case
    using err by (auto simp: callsFor_def callsOf_append)
next
  case (Cons nxt rest)
  let ?chain = "pre @ e # nxt # rest"
  obtain f where fuel: "fuel = Suc f" and f: "length rest < f"
    using Cons.prems(4) by (cases fuel) auto
  let ?st0 = "st\<lparr>wsCache := Some ?chain, wsTrace := wsTrace st @ [Log Info]\<rparr>"
  let ?al = "attemptLoop w env (model e) (provider e) msgs (driverMaxRetries ?chain (model e)) 0 ?st0"
  define st1 where "st1 = snd ?al"
  let ?st2 = "st1\<lparr>wsCache := Some ?chain, wsTrace := wsTrace st1 @ [Log Info]\<rparr>"
  have nopre: "\<forall>x \<in> set pre. model x \<noteq> model e"
    using Cons.prems(1) by (auto simp: image_iff)
  have found: "find (\<lambda>f. model f = model e) ?chain = Some e"
    using nopre by (intro find_at) auto
  have al: "fst ?al = None \<and> wsResult st1 = wsResult ?st0 \<and> wsCache st1 = Some ?chain
      \<and> callsOf (wsTrace st1) = callsOf (wsTrace ?st0) @ replicate (maxRetries e + 1 - 0) (model e, provider e)
      \<and> (\<exists>err. wsLastError st1 = Some err \<and> isRetryableError err
          \<and> builderGenerateText w (length (callsOf (wsTrace ?st0)) + (maxRetries e - 0))
                (model e) (provider e) msgs = Inl err)"
    unfolding st1_def
    by (rule attemptLoop_all_fail [OF fail found driverMaxRetries_ge [OF found]]) simp_all
  have pair: "?al = (None, st1)"
    using al by (simp add: prod_eq_iff st1_def)
  have nf: "getNextFallback env (Some ?chain) (model e) = (Some nxt, Some ?chain)"
    using getNextFallback_at [OF nopre refl, of env "nxt # rest"] by simp
  have step: "walk fuel w env msgs (model e) (provider e) st
        = walk f w env msgs (model nxt) (provider nxt) ?st2"
    unfolding fuel using Cons.prems(2,3) al nf
    by (subst walk.simps) (simp add: getFallbackChain_Some pair)
  have chain': "?chain = (pre @ [e]) @ nxt # rest"
    by simp
  have "\<exists>st' err. walk f w env msgs (model nxt) (provider nxt) ?st2 = (Some (Inl err), st')
        \<and> callsOf (wsTrace st') = callsOf (wsTrace ?st2) @ callsFor (nxt # rest)
        \<and> builderGenerateText w (length (callsOf (wsTrace st')) - 1)
             (model (last (nxt # rest))) (provider (last (nxt # rest))) msgs = Inl err"
    using Cons.prems(1,3) al f by (intro Cons.IH [of "pre @ [e]"]) simp_all
  then show ?case
    unfolding step using al by (auto simp: callsOf_append callsFor_def)
qed

subsection \<open>The walk\<close>

lemma builderCount_Log [simp]: "builderCount (xs @ [Log l]) = builderCount xs"
  by (simp add: builderCount_def is_builder_call_def)

lemma walk_first_success:
  assumes "builderGenerateText w (builderCount (wsTrace st)) m p msgs = Inr r"
  shows "walk (Suc fuel) w env msgs m p st
         = (Some (Inr r),
            st\<lparr>wsCache := snd (getFallbackChain env (wsCache st)),
               wsTrace := wsTrace st @ [Log Info, BuilderCall m p msgs, Log Info],
               wsResult := Some r\<rparr>)"
  using assms
  by (simp add: attemptLoop_success Let_def split: prod.splits)

lemma find_none: "\<forall>f \<in> set chain. \<not> P f \<Longrightarrow> find P chain = None"
  by (induction chain) simp_all

lemma shouldRetry_unknown:
  assumes "\<forall>f \<in> set chain. model f \<noteq> m"
  shows "shouldRetry env (Some chain) e n m = (Inr False, Some chain)"
  using assms by (simp add: shouldRetry_Some find_none)

lemma attemptLoop_unknown_fail:
  assumes "\<forall>f \<in> set chain. model f \<noteq> m" and "wsCache st = Some chain"
    and "builderGenerateText w (builderCount (wsTrace st)) m p msgs = Inl e" and "attempt \<le> maxR"
  shows "attemptLoop w env m p msgs maxR attempt st
         = (None, st\<lparr>wsLastError := Some e, wsCache := Some chain,
              wsTrace := wsTrace st @ [BuilderCall m p msgs, Log Error]\<rparr>)"
proof -
  have sr: "shouldRetry env (wsCache st) e attempt m = (Inr False, Some chain)"
    using assms(2) shouldRetry_unknown [OF assms(1)] by simp
  show ?thesis
    by (rule attemptLoop_stop [OF assms(3,4) sr]) simp
qed

lemma getNextFallback_unknown:
  assumes "\<forall>f \<in> set chain. model f \<noteq> m"
  shows "getNextFallback env (Some chain) m = (None, Some chain)"
  using assms by (simp add: getNextFallback_def getFallbackChain_Some findIndex_none)

lemma walk_unknown_fail:
  assumes "\<forall>f \<in> set chain. model f \<noteq> m" and "wsCache st = Some chain" and "wsResult st = None"
    and "builderGenerateText w (builderCount (wsTrace st)) m p msgs = Inl e"
  shows "walk (Suc fuel) w env msgs m p st
         = (Some (Inl (case e of ThrownObject x \<Rightarrow> e | _ \<Rightarrow> mkError ''All models failed'')),
            st\<lparr>wsLastError := Some e, wsCache := Some chain,
              wsTrace := wsTrace st @ [Log Info, BuilderCall m p msgs, Log Error, Log Error]\<rparr>)"
  using assms
  by (cases e)
     (simp_all add: getFallbackChain_Some attemptLoop_unknown_fail getNextFallback_unknown truthy_def)

lemma attemptLoop_trace:
  "\<exists>ext. wsTrace (snd (attemptLoop w env m p msgs maxR attempt st)) = wsTrace st @ ext
         \<and> (\<forall>x \<in> set ext. driverEffect x)"
proof (induction "Suc maxR - attempt" arbitrary: attempt st)
  case 0
  then have "\<not> attempt \<le> maxR" by simp
  then show ?case by (simp add: attemptLoop_done)
next
  case (Suc k)
  then have le: "attempt \<le> maxR" by simp
  show ?case
  proof (cases "builderGenerateText w (builderCount (wsTrace st)) m p msgs")
    case (Inr r)
    then show ?thesis
      using le by (simp add: attemptLoop_success driverEffect_def)
  next
    case (Inl e)
    obtain out cache' where sr: "shouldRetry env (wsCache st) e attempt m = (out, cache')"
      by (cases "shouldRetry env (wsCache st) e attempt m")
    show ?thesis
    proof (cases out)
      case t: (Inl t)
      show ?thesis
        using attemptLoop_throw [OF Inl le sr [unfolded t]] by (simp add: driverEffect_def)
    next
      case r: (Inr retry)
      show ?thesis
      proof (cases "retry \<and> attempt < maxR")
        case True
        let ?st1 = "st\<lparr>wsLastError := Some e, wsCache := cache',
                     wsTrace := wsTrace st @ [BuilderCall m p msgs, Log Warn]\<rparr>"
        have step: "attemptLoop w env m p msgs maxR attempt st
                    = attemptLoop w env m p msgs maxR (attempt + 1) ?st1"
          using True sr r by (intro attemptLoop_retry [OF Inl]) simp_all
        have "k = Suc maxR - (attempt + 1)"
          using Suc.hyps(2) by simp
        from Suc.hyps(1) [OF this, of ?st1]
        obtain ext where "wsTrace (snd (attemptLoop w env m p msgs maxR (attempt + 1) ?st1))
            = wsTrace ?st1 @ ext" "\<forall>x \<in> set ext. driverEffect x"
          by blast
        then show ?thesis
          unfolding step by (auto simp: driverEffect_def)
      next
        case False
        show ?thesis
          using attemptLoop_stop [OF Inl le sr [unfolded r] False] by (simp add: driverEffect_def)
      qed
    qed
  qed
qed

lemma attemptLoop_first_call:
  assumes le: "attempt \<le> maxR"
  shows "\<exists>ext. wsTrace (snd (attemptLoop w env m p msgs maxR attempt st))
               = wsTrace st @ BuilderCall m p msgs # ext"
proof (cases "builderGenerateText w (builderCount (wsTrace st)) m p msgs")
  case (Inr r)
  then show ?thesis
    using le by (simp add: attemptLoop_success)
next
  case (Inl e)
  obtain out cache' where sr: "shouldRetry env (wsCache st) e attempt m = (out, cache')"
    by (cases "shouldRetry env (wsCache st) e attempt m")
  show ?thesis
  proof (cases out)
    case t: (Inl t)
    show ?thesis
      using attemptLoop_throw [OF Inl le sr [unfolded t]] by simp
  next
    case r: (Inr retry)
    show ?thesis
    proof (cases "retry \<and> attempt < maxR")
      case True
      let ?st1 = "st\<lparr>wsLastError := Some e, wsCache := cache',
                   wsTrace := wsTrace st @ [BuilderCall m p msgs, Log Warn]\<rparr>"
      have step: "attemptLoop w env m p msgs maxR attempt st
                  = attemptLoop w env m p msgs maxR (attempt + 1) ?st1"
        using True sr r by (intro attemptLoop_retry [OF Inl]) simp_all
      obtain ext where "wsTrace (snd (attemptLoop w env m p msgs maxR (attempt + 1) ?st1))
          = wsTrace ?st1 @ ext"
        using attemptLoop_trace by blast
      then show ?thesis
        unfolding step by simp
    next
      case False
      show ?thesis
        using attemptLoop_stop [OF Inl le sr [unfolded r] False] by simp
    qed
  qed
qed

lemma attemptLoop_result:
  "wsResult st = None \<Longrightarrow> wsResult (snd (attemptLoop w env m p msgs maxR attempt st)) = Some r \<Longrightarrow>
   \<exists>ext. wsTrace (snd (attemptLoop w env m p msgs maxR attempt st))
            = wsTrace st @ ext @ [BuilderCall m p msgs, Log Info]
        \<and> builderGenerateText w (builderCount (wsTrace st @ ext)) m p msgs = Inr r
        \<and> (\<forall>x \<in> set ext. driverEffect x)"
proof (induction "Suc maxR - attempt" arbitrary: attempt st)
  case 0
  then have "\<not> attempt \<le> maxR" by simp
  then have "attemptLoop w env m p msgs maxR attempt st = (None, st)"
    by (rule attemptLoop_done)
  with "0.prems" show ?case by simp
next
  case (Suc k)
  then have le: "attempt \<le> maxR" by simp
  show ?case
  proof (cases "builderGenerateText w (builderCount (wsTrace st)) m p msgs")
    case (Inr r')
    have "attemptLoop w env m p msgs maxR attempt st
          = (None, st\<lparr>wsResult := Some r', wsTrace := wsTrace st @ [BuilderCall m p msgs, Log Info]\<rparr>)"
      using le Inr by (simp add: attemptLoop_success)
    with Suc.prems Inr show ?thesis
      by (intro exI [of _ "[]"]) simp
  next
    case (Inl e)
    obtain out cache' where sr: "shouldRetry env (wsCache st) e attempt m = (out, cache')"
      by (cases "shouldRetry env (wsCache st) e attempt m")
    show ?thesis
    proof (cases out)
      case t: (Inl t)
      show ?thesis
        using attemptLoop_throw [OF Inl le sr [unfolded t]] Suc.prems by simp
    next
      case rt: (Inr retry)
      show ?thesis
      proof (cases "retry \<and> attempt < maxR")
        case True
        let ?st1 = "st\<lparr>wsLastError := Some e, wsCache := cache',
                     wsTrace := wsTrace st @ [BuilderCall m p msgs, Log Warn]\<rparr>"
        have step: "attemptLoop w env m p msgs maxR attempt st
                    = attemptLoop w env m p msgs maxR (attempt + 1) ?st1"
          using True sr rt by (intro attemptLoop_retry [OF Inl]) simp_all
        have k: "k = Suc maxR - (attempt + 1)"
          using Suc.hyps(2) by simp
        have "\<exists>ext. wsTrace (snd (attemptLoop w env m p msgs maxR (attempt + 1) ?st1))
                 = wsTrace ?st1 @ ext @ [BuilderCall m p msgs, Log Info]
               \<and> builderGenerateText w (builderCount (wsTrace ?st1 @ ext)) m p msgs = Inr r
               \<and> (\<forall>x \<in> set ext. driverEffect x)"
          using Suc.prems step by (intro Suc.hyps(1) [OF k]) simp_all
        then obtain ext where ext:
          "wsTrace (snd (attemptLoop w env m p msgs maxR (attempt + 1) ?st1))
                 = wsTrace ?st1 @ ext @ [BuilderCall m p msgs, Log Info]"
          "builderGenerateText w (builderCount (wsTrace ?st1 @ ext)) m p msgs = Inr r"
          "\<forall>x \<in> set ext. driverEffect x"
          by blast
        show ?thesis
          unfolding step using ext
          by (intro exI [of _ "[BuilderCall m p msgs, Log Warn] @ ext"])
             (simp add: driverEffect_def)
      next
        case False
        show ?thesis
          using attemptLoop_stop [OF Inl le sr [unfolded rt] False] Suc.prems by simp
      qed
    qed
  qed
qed

lemma walk_trace:
  "\<exists>ext. wsTrace (snd (walk fuel w env msgs m p st)) = wsTrace st @ ext
         \<and> (\<forall>x \<in> set ext. driverEffect x)"
proof (induction fuel arbitrary: m p st)
  case 0
  then show ?case by simp
next
  case (Suc fuel)
  obtain chain cache1 where gc: "getFallbackChain env (wsCache st) = (chain, cache1)"
    by (cases "getFallbackChain env (wsCache st)")
  let ?st0 = "st\<lparr>wsCache := cache1, wsTrace := wsTrace st @ [Log Info]\<rparr>"
  obtain thr st1 where al:
    "attemptLoop w env m p msgs (driverMaxRetries chain m) 0 ?st0 = (thr, st1)"
    by (cases "attemptLoop w env m p msgs (driverMaxRetries chain m) 0 ?st0")
  obtain ext1 where ext1: "wsTrace st1 = wsTrace ?st0 @ ext1" "\<forall>x \<in> set ext1. driverEffect x"
    using attemptLoop_trace [of w env m p msgs "driverMaxRetries chain m" 0 ?st0] al by auto
  show ?case
  proof (cases thr)
    case (Some t)
    then show ?thesis
      using gc al ext1 by (simp add: driverEffect_def)
  next
    case noThrow: None
    show ?thesis
    proof (cases "wsResult st1")
      case (Some r)
      then show ?thesis
        using gc al noThrow ext1 by (simp add: driverEffect_def)
    next
      case None
      obtain nf cache2 where nf: "getNextFallback env (wsCache st1) m = (nf, cache2)"
        by (cases "getNextFallback env (wsCache st1) m")
      show ?thesis
      proof (cases nf)
        case nfNone: None
        show ?thesis
          using gc al noThrow None nf nfNone ext1 by (simp add: driverEffect_def)
      next
        case (Some e)
        let ?st2 = "st1\<lparr>wsCache := cache2, wsTrace := wsTrace st1 @ [Log Info]\<rparr>"
        obtain ext2 where ext2:
          "wsTrace (snd (walk fuel w env msgs (model e) (provider e) ?st2)) = wsTrace ?st2 @ ext2"
          "\<forall>x \<in> set ext2. driverEffect x"
          using Suc.IH by blast
        have step: "walk (Suc fuel) w env msgs m p st
                    = walk fuel w env msgs (model e) (provider e) ?st2"
          using gc al noThrow None nf Some by simp
        have "driverEffect (Log Info)"
          by (simp add: driverEffect_def)
        then show ?thesis
          unfolding step using ext1 ext2 by auto
      qed
    qed
  qed
qed

lemma walk_result:
  "wsResult st = None \<Longrightarrow> walk fuel w env msgs m p st = (Some (Inr r), st') \<Longrightarrow>
   \<exists>ext m' p'. wsTrace st' = wsTrace st @ ext @ [BuilderCall m' p' msgs, Log Info]
        \<and> builderGenerateText w (builderCount (wsTrace st @ ext)) m' p' msgs = Inr r
        \<and> (\<forall>x \<in> set ext. driverEffect x)"
proof (induction fuel arbitrary: m p st)
  case 0
  then show ?case by simp
next
  case (Suc fuel)
  obtain chain cache1 where gc: "getFallbackChain env (wsCache st) = (chain, cache1)"
    by (cases "getFallbackChain env (wsCache st)")
  let ?st0 = "st\<lparr>wsCache := cache1, wsTrace := wsTrace st @ [Log Info]\<rparr>"
  obtain thr st1 where al:
    "attemptLoop w env m p msgs (driverMaxRetries chain m) 0 ?st0 = (thr, st1)"
    by (cases "attemptLoop w env m p msgs (driverMaxRetries chain m) 0 ?st0")
  have st1: "st1 = snd (attemptLoop w env m p msgs (driverMaxRetries chain m) 0 ?st0)"
    using al by simp
  have log: "driverEffect (Log Info)"
    by (simp add: driverEffect_def)
  show ?case
  proof (cases thr)
    case (Some t)
    then show ?thesis
      using Suc.prems(2) gc al by simp
  next
    case noThrow: None
    show ?thesis
    proof (cases "wsResult st1")
      case (Some r1)
      then have eq: "r1 = r" "st' = st1"
        using Suc.prems(2) gc al noThrow by simp_all
      have "\<exists>ext. wsTrace st1 = wsTrace ?st0 @ ext @ [BuilderCall m p msgs, Log Info]
          \<and> builderGenerateText w (builderCount (wsTrace ?st0 @ ext)) m p msgs = Inr r
          \<and> (\<forall>x \<in> set ext. driverEffect x)"
        unfolding st1 using Suc.prems(1) Some eq st1 by (intro attemptLoop_result) simp_all
      then obtain ext where ext: "wsTrace st1 = wsTrace ?st0 @ ext @ [BuilderCall m p msgs, Log Info]"
          "builderGenerateText w (builderCount (wsTrace ?st0 @ ext)) m p msgs = Inr r"
          "\<forall>x \<in> set ext. driverEffect x"
        by blast
      let ?ext = "Log Info # ext"
      have "wsTrace st1 = wsTrace st @ ?ext @ [BuilderCall m p msgs, Log Info]
          \<and> builderGenerateText w (builderCount (wsTrace st @ ?ext)) m p msgs = Inr r
          \<and> (\<forall>x \<in> set ?ext. driverEffect x)"
        using ext log by auto
      then show ?thesis unfolding eq by blast
    next
      case None
      obtain nf cache2 where nf: "getNextFallback env (wsCache st1) m = (nf, cache2)"
        by (cases "getNextFallback env (wsCache st1) m")
      show ?thesis
      proof (cases nf)
        case nfNone: None
        show ?thesis
          using Suc.prems(2) gc al noThrow None nf nfNone by simp
      next
        case (Some e)
        let ?st2 = "st1\<lparr>wsCache := cache2, wsTrace := wsTrace st1 @ [Log Info]\<rparr>"
        obtain ext1 where ext1: "wsTrace st1 = wsTrace ?st0 @ ext1" "\<forall>x \<in> set ext1. driverEffect x"
          using attemptLoop_trace [of w env m p msgs "driverMaxRetries chain m" 0 ?st0] al by auto
        have step: "walk fuel w env msgs (model e) (provider e) ?st2 = (Some (Inr r), st')"
          using Suc.prems(2) gc al noThrow None nf Some by simp
        have "\<exists>ext m' p'. wsTrace st' = wsTrace ?st2 @ ext @ [BuilderCall m' p' msgs, Log Info]
          \<and> builderGenerateText w (builderCount (wsTrace ?st2 @ ext)) m' p' msgs = Inr r
          \<and> (\<forall>x \<in> set ext. driverEffect x)"
          using None step by (intro Suc.IH) simp_all
        then obtain ext m' p' where ext:
          "wsTrace st' = wsTrace ?st2 @ ext @ [BuilderCall m' p' msgs, Log Info]"
          "builderGenerateText w (builderCount (wsTrace ?st2 @ ext)) m' p' msgs = Inr r"
          "\<forall>x \<in> set ext. driverEffect x"
          by blast
        let ?ext = "Log Info # ext1 @ Log Info # ext"
        have "wsTrace st' = wsTrace st @ ?ext @ [BuilderCall m' p' msgs, Log Info]
          \<and> builderGenerateText w (builderCount (wsTrace st @ ?ext)) m' p' msgs = Inr r
          \<and> (\<forall>x \<in> set ?ext. driverEffect x)"
          using ext ext1 log by auto
        then show ?thesis by blast
      qed
    qed
  qed
qed

lemma walk_first_call:
  "\<exists>ext. wsTrace (snd (walk (Suc fuel) w env msgs m p st))
          = wsTrace st @ Log Info # BuilderCall m p msgs # ext"
proof -
  obtain chain cache1 where gc: "getFallbackChain env (wsCache st) = (chain, cache1)"
    by (cases "getFallbackChain env (wsCache st)")
  let ?st0 = "st\<lparr>wsCache := cache1, wsTrace := wsTrace st @ [Log Info]\<rparr>"
  obtain thr st1 where al:
    "attemptLoop w env m p msgs (driverMaxRetries chain m) 0 ?st0 = (thr, st1)"
    by (cases "attemptLoop w env m p msgs (driverMaxRetries chain m) 0 ?st0")
  obtain ext1 where ext1: "wsTrace st1 = wsTrace ?st0 @ BuilderCall m p msgs # ext1"
    using attemptLoop_first_call [of 0 "driverMaxRetries chain m" w env m p msgs ?st0] al by auto
  show ?thesis
  proof (cases thr)
    case (Some t)
    then show ?thesis
      using gc al ext1 by simp
  next
    case noThrow: None
    show ?thesis
    proof (cases "wsResult st1")
      case (Some r)
      then show ?thesis
        using gc al noThrow ext1 by simp
    next
      case None
      obtain nf cache2 where nf: "getNextFallback env (wsCache st1) m = (nf, cache2)"
        by (cases "getNextFallback env (wsCache st1) m")
      show ?thesis
      proof (cases nf)
        case nfNone: None
        show ?thesis
          using gc al noThrow None nf nfNone ext1 by simp
      next
        case (Some e)
        let ?st2 = "st1\<lparr>wsCache := cache2, wsTrace := wsTrace st1 @ [Log Info]\<rparr>"
        obtain ext2 where ext2:
          "wsTrace (snd (walk fuel w env msgs (model e) (provider e) ?st2)) = wsTrace ?st2 @ ext2"
          using walk_trace by blast
        have step: "walk (Suc fuel) w env msgs m p st
                    = walk fuel w env msgs (model e) (provider e) ?st2"
          using gc al noThrow None nf Some by simp
        show ?thesis
          unfolding step using ext1 ext2 by simp
      qed
    qed
  qed
qed

subsection \<open>The handler\<close>

lemma driverEffect_not_increment: "driverEffect x \<Longrightarrow> \<not> isIncrementUsage x"
  by (cases x) (simp_all add: driverEffect_def isIncrementUsage_def)

lemma usageGuard_effects: "x \<in> set (snd (usageGuard w userId)) \<Longrightarrow> \<not> isIncrementUsage x"
  by (auto simp: usageGuard_def isIncrementUsage_def split: sum.splits if_splits)

lemma planningStage_effects:
  "x \<in> set (snd (planningStage w req cm cp)) \<Longrightarrow> \<not> isIncrementUsage x"
  by (auto simp: planningStage_def planningTry_def isIncrementUsage_def Let_def
           split: sum.splits if_splits option.splits)

lemma prepareContext_effects:
  "x \<in> set (snd (prepareContext w req enh)) \<Longrightarrow> \<not> isIncrementUsage x"
  by (auto simp: prepareContext_def onFinishLogs_def isIncrementUsage_def Let_def
           split: sum.splits if_splits option.splits prod.splits)

lemma handleError_logs: "set (snd (handleError e)) \<subseteq> {Log Error}"
  by (cases e; cases "messageOf e") (simp_all add: handleError_def Let_def)

lemma handleError_effects: "x \<in> set (snd (handleError e)) \<Longrightarrow> \<not> isIncrementUsage x"
  using handleError_logs [of e] by (auto simp: isIncrementUsage_def)

lemma finish_status: "status (fst (finish w sid ctx r)) = 200"
  by (simp add: finish_def Let_def)

lemma generation_increment:
  assumes clean: "\<forall>y \<in> set tr. \<not> isIncrementUsage y"
    and x: "x \<in> set (fst (snd (generation fuel w env req sid enh cm cp cache tr)))" "isIncrementUsage x"
  shows "afterSuccessfulCall w (fst (snd (generation fuel w env req sid enh cm cp cache tr))) x
       \<and> (\<exists>resp. fst (generation fuel w env req sid enh cm cp cache tr) = Some (Inr resp)
                 \<and> status resp = 200)"
proof -
  obtain pc eff where pc: "prepareContext w req enh = (pc, eff)"
    by (cases "prepareContext w req enh")
  have eff: "\<forall>y \<in> set eff. \<not> isIncrementUsage y"
    using prepareContext_effects [of _ w req enh] pc by auto
  show ?thesis
  proof (cases pc)
    case (Inl e)
    obtain out heff where he: "handleError e = (out, heff)"
      by (cases "handleError e")
    have "\<forall>y \<in> set heff. \<not> isIncrementUsage y"
      using handleError_effects [of _ e] he by auto
    then show ?thesis
      using x clean eff pc Inl he by (auto simp: generation_def)
  next
    case (Inr ctx)
    let ?msgs = "builderMessages (messages req) enh (processedMessages ctx)"
    let ?st = "\<lparr>wsCache = cache, wsTrace = tr @ eff @ [Log Info], wsLastError = None, wsResult = None\<rparr>"
    obtain out st' where wk: "walk fuel w env ?msgs cm cp ?st = (out, st')"
      by (cases "walk fuel w env ?msgs cm cp ?st")
    obtain ext where ext: "wsTrace st' = wsTrace ?st @ ext" "\<forall>y \<in> set ext. driverEffect y"
      using walk_trace [of fuel w env ?msgs cm cp ?st] wk by auto
    have st'_clean: "\<forall>y \<in> set (wsTrace st'). \<not> isIncrementUsage y"
      using ext clean eff driverEffect_not_increment by (auto simp: isIncrementUsage_def)
    show ?thesis
    proof (cases out)
      case None
      then show ?thesis
        using x pc Inr wk st'_clean by (auto simp: generation_def)
    next
      case (Some res)
      show ?thesis
      proof (cases res)
        case (Inl e)
        obtain hout heff where he: "handleError e = (hout, heff)"
          by (cases "handleError e")
        have "\<forall>y \<in> set heff. \<not> isIncrementUsage y"
          using handleError_effects [of _ e] he by auto
        then show ?thesis
          using x pc Inr wk Some Inl he st'_clean by (auto simp: generation_def)
      next
        case r: (Inr r)
        obtain resp feff where fin: "finish w sid ctx r = (resp, feff)"
          by (cases "finish w sid ctx r")
        have gen: "generation fuel w env req sid enh cm cp cache tr
                   = (Some (Inr resp), wsTrace st' @ feff, wsCache st')"
          using pc Inr wk Some r fin by (simp add: generation_def)
        have "\<exists>ext m' p'. wsTrace st' = wsTrace ?st @ ext @ [BuilderCall m' p' ?msgs, Log Info]
            \<and> builderGenerateText w (builderCount (wsTrace ?st @ ext)) m' p' ?msgs = Inr r
            \<and> (\<forall>x \<in> set ext. driverEffect x)"
          using wk Some r by (intro walk_result) simp_all
        then obtain ext' m' p' where ext':
          "wsTrace st' = wsTrace ?st @ ext' @ [BuilderCall m' p' ?msgs, Log Info]"
          "builderGenerateText w (builderCount (wsTrace ?st @ ext')) m' p' ?msgs = Inr r"
          "\<forall>x \<in> set ext'. driverEffect x"
          by blast
        let ?pre = "wsTrace ?st @ ext'"
        let ?post = "Log Info # feff"
        have split: "wsTrace st' @ feff = ?pre @ BuilderCall m' p' ?msgs # ?post"
          using ext'(1) by simp
        have pre_clean: "\<forall>y \<in> set ?pre. \<not> isIncrementUsage y"
          using ext'(3) clean eff driverEffect_not_increment by (auto simp: isIncrementUsage_def)
        have "x \<in> set ?post"
          using x st'_clean unfolding gen by auto
        then have "afterSuccessfulCall w (wsTrace st' @ feff) x"
          unfolding afterSuccessfulCall_def using split ext'(2) pre_clean by blast
        moreover have "status resp = 200"
          using finish_status [of w sid ctx r] fin by simp
        ultimately show ?thesis
          unfolding gen by simp
      qed
    qed
  qed
qed

lemma afterGuard_increment:
  assumes clean: "\<forall>y \<in> set tr. \<not> isIncrementUsage y"
    and x: "x \<in> set (fst (snd (afterGuard fuel w env cache sid tr)))" "isIncrementUsage x"
  shows "afterSuccessfulCall w (fst (snd (afterGuard fuel w env cache sid tr))) x
       \<and> (\<exists>resp. fst (afterGuard fuel w env cache sid tr) = Some (Inr resp) \<and> status resp = 200)"
proof (cases "requestJson w")
  case (Inl e)
  then show ?thesis
    using x clean by (simp add: afterGuard_def)
next
  case (Inr req)
  obtain d cache1 where d: "getDefaultModel env cache = (d, cache1)"
    by (cases "getDefaultModel env cache")
  show ?thesis
  proof (cases "orDefault (requestedModel req) ''model'' (map_option model d)")
    case (Inl e)
    then show ?thesis
      using x clean Inr d by (simp add: afterGuard_def)
  next
    case cm: (Inr cm)
    show ?thesis
    proof (cases "orDefault (requestedProvider req) ''provider'' (map_option provider d)")
      case (Inl e)
      then show ?thesis
        using x clean Inr d cm by (simp add: afterGuard_def)
    next
      case cp: (Inr cp)
      show ?thesis
      proof (cases "cookieError w")
        case (Some e)
        then show ?thesis
          using x clean Inr d cm cp by (simp add: afterGuard_def)
      next
        case None
        obtain enh peff where ps: "planningStage w req cm cp = (enh, peff)"
          by (cases "planningStage w req cm cp")
        have "\<forall>y \<in> set peff. \<not> isIncrementUsage y"
          using planningStage_effects [of _ w req cm cp] ps by auto
        then have clean': "\<forall>y \<in> set (tr @ peff). \<not> isIncrementUsage y"
          using clean by auto
        have ag: "afterGuard fuel w env cache sid tr
                  = generation fuel w env req sid enh cm cp cache1 (tr @ peff)"
          using Inr d cm cp None ps by (simp add: afterGuard_def)
        show ?thesis
          using generation_increment [OF clean', of x fuel w env req sid enh cm cp cache1] x
          unfolding ag by simp
      qed
    qed
  qed
qed

lemma handleError_body: "handleError e = (Inr resp, eff) \<Longrightarrow> body resp \<noteq> LimitReached msg"
  by (cases e; cases "messageOf e") (auto simp: handleError_def Let_def split: if_splits)

lemma generation_body:
  "generation fuel w env req sid enh cm cp cache tr = (Some (Inr resp), tr', c')
     \<Longrightarrow> body resp \<noteq> LimitReached msg"
  by (auto simp: generation_def finish_def Let_def
           split: prod.splits sum.splits option.splits if_splits
           dest: handleError_body)

lemma afterGuard_body:
  "fst (afterGuard fuel w env cache sid tr) = Some (Inr resp) \<Longrightarrow> body resp \<noteq> LimitReached msg"
proof -
  assume a: "fst (afterGuard fuel w env cache sid tr) = Some (Inr resp)"
  have g: "\<And>req enh cm cp c1 tr1.
      fst (generation fuel w env req sid enh cm cp c1 tr1) = Some (Inr resp)
        \<Longrightarrow> body resp \<noteq> LimitReached msg"
    using generation_body by (metis prod.collapse)
  show ?thesis
    using a
    by (auto simp: afterGuard_def Let_def split: sum.splits prod.splits option.splits
             dest: g)
qed

lemma prepareContext_processed:
  "prepareContext w req enh = (Inr ctx, eff) \<Longrightarrow> processToolInvocations w enh = Inr (processedMessages ctx)"
  by (auto simp: prepareContext_def Let_def split: sum.splits if_splits prod.splits)

lemma planningStage_throws:
  assumes "chatMode req = ''build''" "useKimiPlanning req \<noteq> Some False"
    "lastUserMessage (messages req) = Some lum" "planningThrows w lum"
  shows "fst (planningStage w req cm cp) = messages req"
  using assms
  by (auto simp: planningStage_def planningTry_def planningThrows_def Let_def split: sum.splits)

lemma generation_first_call:
  assumes pc: "prepareContext w req enh = (Inr ctx, eff)"
  shows "\<exists>ext. fst (snd (generation (Suc fuel) w env req sid enh cm cp cache tr))
           = tr @ eff @ [Log Info, Log Info,
                BuilderCall cm cp (builderMessages (messages req) enh (processedMessages ctx))] @ ext"
proof -
  let ?msgs = "builderMessages (messages req) enh (processedMessages ctx)"
  let ?st = "\<lparr>wsCache = cache, wsTrace = tr @ eff @ [Log Info], wsLastError = None, wsResult = None\<rparr>"
  obtain out st' where wk: "walk (Suc fuel) w env ?msgs cm cp ?st = (out, st')"
    by (cases "walk (Suc fuel) w env ?msgs cm cp ?st")
  obtain ext where ext: "wsTrace st' = wsTrace ?st @ Log Info # BuilderCall cm cp ?msgs # ext"
    using walk_first_call [of fuel w env ?msgs cm cp ?st] wk by auto
  show ?thesis
  proof (cases out)
    case None
    then show ?thesis
      using pc wk ext by (simp add: generation_def del: walk.simps)
  next
    case (Some res)
    show ?thesis
    proof (cases res)
      case (Inl e)
      then show ?thesis
        using pc wk Some ext by (simp add: generation_def split: prod.splits del: walk.simps)
    next
      case (Inr r)
      then show ?thesis
        using pc wk Some ext by (simp add: generation_def split: prod.splits del: walk.simps)
    qed
  qed
qed

lemma attemptLoop_cache:
  "wsCache st = Some chain \<Longrightarrow> wsCache (snd (attemptLoop w env m p msgs maxR attempt st)) = Some chain"
proof (induction "Suc maxR - attempt" arbitrary: attempt st)
  case 0
  then have "\<not> attempt \<le> maxR" by simp
  then show ?case using "0.prems" by (simp add: attemptLoop_done)
next
  case (Suc k)
  then have le: "attempt \<le> maxR" by simp
  show ?case
  proof (cases "builderGenerateText w (builderCount (wsTrace st)) m p msgs")
    case (Inr r)
    then show ?thesis
      using le Suc.prems by (simp add: attemptLoop_success)
  next
    case (Inl e)
    obtain out where sr: "shouldRetry env (wsCache st) e attempt m = (out, Some chain)"
      using Suc.prems shouldRetry_snd [of env "Some chain" e attempt m]
      by (cases "shouldRetry env (wsCache st) e attempt m") (simp add: getFallbackChain_Some)
    show ?thesis
    proof (cases out)
      case t: (Inl t)
      show ?thesis
        using attemptLoop_throw [OF Inl le sr [unfolded t]] by simp
    next
      case rt: (Inr retry)
      show ?thesis
      proof (cases "retry \<and> attempt < maxR")
        case True
        let ?st1 = "st\<lparr>wsLastError := Some e, wsCache := Some chain,
                     wsTrace := wsTrace st @ [BuilderCall m p msgs, Log Warn]\<rparr>"
        have step: "attemptLoop w env m p msgs maxR attempt st
                    = attemptLoop w env m p msgs maxR (attempt + 1) ?st1"
          using True sr rt by (intro attemptLoop_retry [OF Inl]) simp_all
        have k: "k = Suc maxR - (attempt + 1)"
          using Suc.hyps(2) by simp
        have "wsCache (snd (attemptLoop w env m p msgs maxR (attempt + 1) ?st1)) = Some chain"
          by (intro Suc.hyps(1) [OF k]) simp
        then show ?thesis
          unfolding step .
      next
        case False
        show ?thesis
          using attemptLoop_stop [OF Inl le sr [unfolded rt] False] by simp
      qed
    qed
  qed
qed

lemma getNextFallback_Some_cache: "snd (getNextFallback env (Some chain) m) = Some chain"
  by (simp add: getNextFallback_snd getFallbackChain_Some)

lemma walk_cache:
  "wsCache st = Some chain \<Longrightarrow> wsCache (snd (walk fuel w env msgs m p st)) = Some chain"
proof (induction fuel arbitrary: m p st)
  case 0
  then show ?case by simp
next
  case (Suc fuel)
  let ?st0 = "st\<lparr>wsCache := Some chain, wsTrace := wsTrace st @ [Log Info]\<rparr>"
  obtain thr st1 where al:
    "attemptLoop w env m p msgs (driverMaxRetries chain m) 0 ?st0 = (thr, st1)"
    by (cases "attemptLoop w env m p msgs (driverMaxRetries chain m) 0 ?st0")
  have c1: "wsCache st1 = Some chain"
    using attemptLoop_cache [of ?st0 chain w env m p msgs "driverMaxRetries chain m" 0] al by simp
  obtain nf where nf: "getNextFallback env (Some chain) m = (nf, Some chain)"
    using getNextFallback_Some_cache [of env chain m]
    by (cases "getNextFallback env (Some chain) m") simp
  show ?case
  proof (cases thr)
    case (Some t)
    then show ?thesis
      using Suc.prems al c1 by (simp add: getFallbackChain_Some)
  next
    case noThrow: None
    show ?thesis
    proof (cases "wsResult st1")
      case (Some r)
      then show ?thesis
        using Suc.prems al noThrow c1 by (simp add: getFallbackChain_Some)
    next
      case None
      show ?thesis
      proof (cases nf)
        case nfNone: None
        show ?thesis
          using Suc.prems al noThrow c1 None nf nfNone by (simp add: getFallbackChain_Some)
      next
        case (Some e)
        let ?st2 = "st1\<lparr>wsCache := Some chain, wsTrace := wsTrace st1 @ [Log Info]\<rparr>"
        have step: "walk (Suc fuel) w env msgs m p st
                    = walk fuel w env msgs (model e) (provider e) ?st2"
          using Suc.prems al noThrow c1 None nf Some by (simp add: getFallbackChain_Some)
        show ?thesis
          unfolding step by (rule Suc.IH) simp
      qed
    qed
  qed
qed

lemma generation_cache:
  "snd (snd (generation fuel w env req sid enh cm cp (Some chain) tr)) = Some chain"
proof -
  obtain pc eff where pc: "prepareContext w req enh = (pc, eff)"
    by (cases "prepareContext w req enh")
  show ?thesis
  proof (cases pc)
    case (Inl e)
    then show ?thesis
      using pc by (simp add: generation_def split: prod.splits)
  next
    case (Inr ctx)
    let ?msgs = "builderMessages (messages req) enh (processedMessages ctx)"
    let ?st = "\<lparr>wsCache = Some chain, wsTrace = tr @ eff @ [Log Info], wsLastError = None,
                wsResult = None\<rparr>"
    obtain out st' where wk: "walk fuel w env ?msgs cm cp ?st = (out, st')"
      by (cases "walk fuel w env ?msgs cm cp ?st")
    have "wsCache st' = Some chain"
      using walk_cache [of ?st chain fuel w env ?msgs cm cp] wk by simp
    then show ?thesis
      using pc Inr wk
      by (simp add: generation_def split: prod.splits option.splits sum.splits)
  qed
qed

lemma afterGuard_cache:
  "snd (snd (afterGuard fuel w env (Some chain) sid tr)) = Some chain"
proof -
  have d: "snd (getDefaultModel env (Some chain)) = Some chain"
    by (simp add: getDefaultModel_snd getFallbackChain_Some)
  show ?thesis
    using d
    by (auto simp: afterGuard_def generation_cache split: sum.splits prod.splits option.splits)
qed

lemma chatAction_cache: "snd (snd (chatAction fuel w env (Some chain))) = Some chain"
  by (auto simp: chatAction_def afterGuard_cache split: sum.splits prod.splits guard_outcome.splits)

lemma processStep_Some: "processStep env (Some chain) c = Some chain"
  by (cases c)
     (simp_all add: getDefaultModel_snd getNextFallback_snd shouldRetry_snd getFallbackChain_Some
        chatAction_cache)

lemma processRun_Some: "processRun (Some chain) steps = Some chain"
  by (induction steps) (auto simp: processStep_Some)


section \<open>The properties\<close>

subsection \<open>Usage accounting\<close>

text \<open>
  C1. The specification asks that the usage reported after a successful generation is the
  sum of the usage of every sub-call, the planning call included: with
  \<open>{completion: 10, prompt: 5}\<close> from planning and \<open>{completion: 20, prompt: 8}\<close> from
  the builder, the reported usage would be \<open>{completion: 30, prompt: 13, total: 43}\<close>.
  The handler declares \<open>cumulativeUsage\<close> after the planning stage and never adds the
  planning result's usage to it, as it does for the summary, the context selection and the
  builder call. In the example world the planning call is made and returns a usage of
  10, 5 and 15 tokens, the one builder call returns 20, 8 and 28, and the response reports
  20, 8 and 28.
\<close>

theorem planning_usage_not_reported:
  "planningGenerateText exampleWorld (planningPrompt ''todo app'') = Inr planningAnswer
   \<and> usage planningAnswer
       = Some \<lparr>completionTokens = Some 10, promptTokens = Some 5, totalTokens = Some 15\<rparr>
   \<and> usage builderAnswer
       = Some \<lparr>completionTokens = Some 20, promptTokens = Some 8, totalTokens = Some 28\<rparr>
   \<and> PlanningCall (planningPrompt ''todo app'') \<in> set (fst (snd (chatAction 1 exampleWorld unsetEnv None)))
   \<and> callsOf (fst (snd (chatAction 1 exampleWorld unsetEnv None))) = [(''qwen/qwen3-coder'', ''OpenRouter'')]
   \<and> fst (chatAction 1 exampleWorld unsetEnv None)
       = Some (Inr \<lparr>status = 200,
                    body = Generated
                      \<lparr>gbContent = ''html'',
                       gbUsage = \<lparr>cumCompletionTokens = 20, cumPromptTokens = 8, cumTotalTokens = 28\<rparr>,
                       gbContextFiles = [], gbSummary = None, gbToolCalls = []\<rparr>\<rparr>)"
  by code_simp

subsection \<open>The retry and fallback driver\<close>

text \<open>
  The driver is the \<open>while\<close> loop of the handler, here \<open>walk\<close>. The handler enters
  it with the chain already stored (it has called \<open>getDefaultModel\<close>), with no result
  and no error yet, and with the requested model and provider, or else those of entry 0;
  the statements about the driver start from such a state.
\<close>

text \<open>
  C2. For a chain with pairwise distinct model strings, a walk that starts at entry 0 in a
  world where every builder call fails with a retryable error ends, within as many passes
  as the chain has entries, by throwing; the builder calls it has made are
  \<open>maxRetries + 1\<close> calls for each entry, in chain order, and the error it throws is the
  error of the last of these calls.
\<close>

theorem all_fail_exhausts_chain:
  assumes "allFailRetryable w" and "chain \<noteq> []" and "distinct (map model chain)"
    and "wsCache st = Some chain" and "wsResult st = None" and "length chain \<le> fuel"
  shows "\<exists>st' err.
           walk fuel w env msgs (model (hd chain)) (provider (hd chain)) st = (Some (Inl err), st')
         \<and> callsOf (wsTrace st') = callsOf (wsTrace st) @ callsFor chain
         \<and> builderGenerateText w (length (callsOf (wsTrace st')) - 1)
              (model (last chain)) (provider (last chain)) msgs = Inl err"
proof -
  obtain e rest where chain: "chain = e # rest"
    using assms(2) by (cases chain) auto
  have "\<exists>st' err. walk fuel w env msgs (model e) (provider e) st = (Some (Inl err), st')
        \<and> callsOf (wsTrace st') = callsOf (wsTrace st) @ callsFor (e # rest)
        \<and> builderGenerateText w (length (callsOf (wsTrace st')) - 1)
             (model (last (e # rest))) (provider (last (e # rest))) msgs = Inl err"
    using assms(3-6) walk_all_fail [OF assms(1), of "[]" e rest st fuel env msgs]
    unfolding chain by simp
  then show ?thesis
    unfolding chain by simp
qed

theorem all_fail_exhausts_chain_witness:
  "allFailRetryable overloadedWorld
   \<and> distinct (map model (buildChain unsetEnv))
   \<and> (\<exists>st' err.
         walk 4 overloadedWorld unsetEnv [] (model (hd (buildChain unsetEnv)))
           (provider (hd (buildChain unsetEnv))) (initialState (Some (buildChain unsetEnv)))
           = (Some (Inl err), st')
       \<and> callsOf (wsTrace st')
           = callsOf (wsTrace (initialState (Some (buildChain unsetEnv)))) @ callsFor (buildChain unsetEnv)
       \<and> builderGenerateText overloadedWorld (length (callsOf (wsTrace st')) - 1)
            (model (last (buildChain unsetEnv))) (provider (last (buildChain unsetEnv))) [] = Inl err)"
proof -
  have retry: "isRetryableError (mkError ''HTTP 503'')"
    by code_simp
  have fail: "allFailRetryable overloadedWorld"
    unfolding allFailRetryable_def overloadedWorld_def using retry by simp
  have ne: "buildChain unsetEnv \<noteq> []"
    by (simp add: buildChain_def)
  have dist: "distinct (map model (buildChain unsetEnv))"
    by code_simp
  have cache: "wsCache (initialState (Some (buildChain unsetEnv))) = Some (buildChain unsetEnv)"
    and res: "wsResult (initialState (Some (buildChain unsetEnv))) = None"
    by (simp_all add: initialState_def)
  have fuel: "length (buildChain unsetEnv) \<le> 4"
    by (simp add: buildChain_def)
  show ?thesis
    using fail dist all_fail_exhausts_chain [OF fail ne dist cache res fuel, of unsetEnv "[]"]
    by simp
qed

text \<open>
  C3. The specification asks that \<open>shouldRetry\<close> returns true exactly when the model
  has an entry in the chain, the message of the error contains one of the seven markers
  whatever the case of its letters, and the retry count is below the bound of that entry,
  for every error value, and that it returns false once the count has reached the bound.
  The function does so for every error whose message is a string or is missing (also for
  a thrown \<open>null\<close> or \<open>undefined\<close>, which the optional chaining guards), with the
  first entry of that model string, and it returns false for a model outside the chain.
  For a model in the chain and an error whose message is neither missing nor a string, it
  does not return: \<open>error?.message?.toLowerCase()\<close> calls a method that a number does not
  have and throws a \<open>TypeError\<close>, whatever the retry count. With the default chain, the
  model of entry 0 (bound 2), a retry count of 5 and an error whose message is the number
  503, the call throws where the specification has it return false. The case of letters is
  that of \<open>toLowerCase\<close>, for which the Kelvin sign U+212A is a capital of \<open>k\<close>: a
  message \<open>NETWOR\<close> followed by that sign contains \<open>network\<close>.
\<close>

theorem shouldRetry_characterised:
  "(fst (shouldRetry env cache error currentRetry mdl) = Inr True \<longleftrightarrow>
      (\<exists>entry. find (\<lambda>f. model f = mdl) (fst (getFallbackChain env cache)) = Some entry
          \<and> (\<exists>marker \<in> set [''overloaded'', ''rate limit'', ''timeout'', ''network'',
                               ''429'', ''503'', ''500''].
                 containsIgnoringCase (messageOf error) marker)
          \<and> currentRetry < maxRetries entry))
   \<and> (fst (shouldRetry env cache error currentRetry mdl)
         = Inl (mkError ''error?.message?.toLowerCase is not a function'') \<longleftrightarrow>
      (\<exists>entry. find (\<lambda>f. model f = mdl) (fst (getFallbackChain env cache)) = Some entry)
         \<and> (\<exists>t. messageOf error = OtherMessage t))
   \<and> (fst (shouldRetry env cache error currentRetry mdl) = Inr True
       \<or> fst (shouldRetry env cache error currentRetry mdl) = Inr False
       \<or> fst (shouldRetry env cache error currentRetry mdl)
            = Inl (mkError ''error?.message?.toLowerCase is not a function''))
   \<and> (\<forall>entry. find (\<lambda>f. model f = mdl) (fst (getFallbackChain env cache)) = Some entry
          \<longrightarrow> currentRetry \<ge> maxRetries entry
          \<longrightarrow> fst (shouldRetry env cache error currentRetry mdl)
                = (case messageOf error of
                     OtherMessage t \<Rightarrow> Inl (mkError ''error?.message?.toLowerCase is not a function'')
                   | _ \<Rightarrow> Inr False))
   \<and> (find (\<lambda>f. model f = mdl) (fst (getFallbackChain env cache)) = None
          \<longrightarrow> fst (shouldRetry env cache error currentRetry mdl) = Inr False)"
proof -
  obtain chain cache' where gc: "getFallbackChain env cache = (chain, cache')"
    by (cases "getFallbackChain env cache")
  have other: "containsIgnoringCase (OtherMessage t) marker = False"
    and missing: "containsIgnoringCase NoMessage marker = False" for t marker
    by (simp_all add: containsIgnoringCase_def)
  show ?thesis
  proof (cases "find (\<lambda>f. model f = mdl) chain")
    case None
    then show ?thesis
      using gc by (simp add: shouldRetry_def)
  next
    case (Some entry)
    show ?thesis
    proof (cases "messageOf error")
      case NoMessage
      then show ?thesis
        using gc Some isRetryableError_iff [of error]
        by (auto simp: shouldRetry_def missing)
    next
      case (StringMessage m)
      then show ?thesis
        using gc Some isRetryableError_iff [of error]
        by (auto simp: shouldRetry_def)
    next
      case (OtherMessage t)
      then show ?thesis
        using gc Some by (simp add: shouldRetry_def other)
    qed
  qed
qed

theorem shouldRetry_characterised_witness:
  "find (\<lambda>f. model f = ''qwen/qwen3-coder'') (fst (getFallbackChain unsetEnv None))
        = Some \<lparr>model = ''qwen/qwen3-coder'', provider = ''OpenRouter'', maxRetries = 2\<rparr>
   \<and> fst (shouldRetry unsetEnv None (mkError ''Server Overloaded'') 1 ''qwen/qwen3-coder'') = Inr True
   \<and> (\<exists>marker \<in> set [''overloaded'', ''rate limit'', ''timeout'', ''network'',
                        ''429'', ''503'', ''500''].
          containsIgnoringCase (messageOf (mkError ''Server Overloaded'')) marker)
   \<and> fst (shouldRetry unsetEnv None (mkError ''Server Overloaded'') 2 ''qwen/qwen3-coder'') = Inr False
   \<and> fst (shouldRetry unsetEnv None (mkError ''bad request'') 0 ''qwen/qwen3-coder'') = Inr False
   \<and> \<not> (\<exists>marker \<in> set [''overloaded'', ''rate limit'', ''timeout'', ''network'',
                          ''429'', ''503'', ''500''].
            containsIgnoringCase (messageOf (mkError ''bad request'')) marker)
   \<and> find (\<lambda>f. model f = ''gpt-4o'') (fst (getFallbackChain unsetEnv None)) = None
   \<and> fst (shouldRetry unsetEnv None (mkError ''Server Overloaded'') 0 ''gpt-4o'') = Inr False
   \<and> fst (shouldRetry unsetEnv None kelvinError 0 ''qwen/qwen3-coder'') = Inr True
   \<and> (\<exists>marker \<in> set [''overloaded'', ''rate limit'', ''timeout'', ''network'',
                        ''429'', ''503'', ''500''].
          containsIgnoringCase (messageOf kelvinError) marker)
   \<and> messageOf numberedError = OtherMessage True
   \<and> fst (shouldRetry unsetEnv None numberedError 5 ''qwen/qwen3-coder'')
        = Inl (mkError ''error?.message?.toLowerCase is not a function'')
   \<and> fst (shouldRetry unsetEnv None numberedError 5 ''qwen/qwen3-coder'') \<noteq> Inr False"
proof -
  let ?entry = "\<lparr>model = ''qwen/qwen3-coder'', provider = ''OpenRouter'', maxRetries = 2\<rparr>"
  have found: "find (\<lambda>f. model f = ''qwen/qwen3-coder'') (fst (getFallbackChain unsetEnv None))
      = Some ?entry"
    by (simp add: getFallbackChain_None buildChain_def env_or_def unsetEnv_def)
  have unknown: "find (\<lambda>f. model f = ''gpt-4o'') (fst (getFallbackChain unsetEnv None)) = None"
    by (simp add: getFallbackChain_None buildChain_def env_or_def unsetEnv_def)
  have run1: "fst (shouldRetry unsetEnv None (mkError ''Server Overloaded'') 1 ''qwen/qwen3-coder'')
              = Inr True"
    by code_simp
  have run2: "fst (shouldRetry unsetEnv None (mkError ''bad request'') 0 ''qwen/qwen3-coder'')
              = Inr False"
    by code_simp
  have msg: "messageOf (mkError ''Server Overloaded'') = StringMessage (ascii ''Server Overloaded'')"
    by (simp add: messageOf_def mkError_def)
  have marker1: "\<exists>marker \<in> set [''overloaded'', ''rate limit'', ''timeout'', ''network'',
                        ''429'', ''503'', ''500''].
          containsIgnoringCase (messageOf (mkError ''Server Overloaded'')) marker"
    using shouldRetry_characterised
            [of unsetEnv None "mkError ''Server Overloaded''" 1 "''qwen/qwen3-coder''"] run1
    by blast
  have marker2: "\<not> (\<exists>marker \<in> set [''overloaded'', ''rate limit'', ''timeout'', ''network'',
                          ''429'', ''503'', ''500''].
            containsIgnoringCase (messageOf (mkError ''bad request'')) marker)"
    using shouldRetry_characterised
            [of unsetEnv None "mkError ''bad request''" 0 "''qwen/qwen3-coder''"] run2 found
    by auto
  have bound: "fst (shouldRetry unsetEnv None (mkError ''Server Overloaded'') 2 ''qwen/qwen3-coder'')
               = Inr False"
    using shouldRetry_characterised
            [of unsetEnv None "mkError ''Server Overloaded''" 2 "''qwen/qwen3-coder''"] found msg
    by simp
  have out: "fst (shouldRetry unsetEnv None (mkError ''Server Overloaded'') 0 ''gpt-4o'') = Inr False"
    using shouldRetry_characterised
            [of unsetEnv None "mkError ''Server Overloaded''" 0 "''gpt-4o''"] unknown
    by blast
  have run3: "fst (shouldRetry unsetEnv None kelvinError 0 ''qwen/qwen3-coder'') = Inr True"
    by code_simp
  have marker3: "\<exists>marker \<in> set [''overloaded'', ''rate limit'', ''timeout'', ''network'',
                        ''429'', ''503'', ''500''].
          containsIgnoringCase (messageOf kelvinError) marker"
    using shouldRetry_characterised [of unsetEnv None kelvinError 0 "''qwen/qwen3-coder''"] run3
    by blast
  have number: "messageOf numberedError = OtherMessage True"
    by (simp add: messageOf_def numberedError_def)
  have throws: "fst (shouldRetry unsetEnv None numberedError 5 ''qwen/qwen3-coder'')
        = Inl (mkError ''error?.message?.toLowerCase is not a function'')"
    using shouldRetry_characterised [of unsetEnv None numberedError 5 "''qwen/qwen3-coder''"]
      found number
    by simp
  have run4: "fst (shouldRetry unsetEnv None numberedError 5 ''qwen/qwen3-coder'') \<noteq> Inr False"
    by code_simp
  show ?thesis
    using found run1 marker1 bound run2 marker2 unknown out run3 marker3 number throws run4
    by blast
qed

subsection \<open>Planning failures\<close>

text \<open>
  C4. For a request in build mode with planning enabled and a user message, when the
  planning stage throws (in the extraction of the request text, in the planning call, or
  on an empty planning response), the failure is caught: the enhanced message list is the
  request's message list, unchanged, and from there on the handler does what it does for
  the same request with planning switched off. When the context preparation that follows
  returns, the walk is entered and its first effect after its log line is a builder call with
  the current model and provider, whose message list is what the processing of tool
  invocations returned for the request's messages.
\<close>

theorem planning_failure_not_fatal:
  "chatMode req = ''build'' \<and> useKimiPlanning req \<noteq> Some False
     \<and> lastUserMessage (messages req) = Some lum \<and> planningThrows w lum
   \<longrightarrow> fst (planningStage w req cm cp) = messages req
     \<and> generation (Suc fuel) w env req sid (fst (planningStage w req cm cp)) cm cp cache tr
         = generation (Suc fuel) w env (req\<lparr>useKimiPlanning := Some False\<rparr>) sid
             (fst (planningStage w (req\<lparr>useKimiPlanning := Some False\<rparr>) cm cp)) cm cp cache tr
     \<and> (\<forall>ctx eff. prepareContext w req (messages req) = (Inr ctx, eff) \<longrightarrow>
           processToolInvocations w (messages req) = Inr (processedMessages ctx)
           \<and> (\<exists>ext. fst (snd (generation (Suc fuel) w env req sid
                                (fst (planningStage w req cm cp)) cm cp cache tr))
                    = tr @ eff @ [Log Info, Log Info, BuilderCall cm cp (processedMessages ctx)] @ ext))"
proof (intro impI conjI allI)
  assume a: "chatMode req = ''build'' \<and> useKimiPlanning req \<noteq> Some False
     \<and> lastUserMessage (messages req) = Some lum \<and> planningThrows w lum"
  then have "chatMode req = ''build''" "useKimiPlanning req \<noteq> Some False"
    "lastUserMessage (messages req) = Some lum" "planningThrows w lum"
    by blast+
  then show ps: "fst (planningStage w req cm cp) = messages req"
    by (rule planningStage_throws)
  have off: "fst (planningStage w (req\<lparr>useKimiPlanning := Some False\<rparr>) cm cp) = messages req"
    by (simp add: planningStage_def split: option.splits)
  have msgs: "messages (req\<lparr>useKimiPlanning := Some False\<rparr>) = messages req"
    by simp
  have pc: "prepareContext w (req\<lparr>useKimiPlanning := Some False\<rparr>) (messages req)
            = prepareContext w req (messages req)"
    by (simp add: prepareContext_def split: sum.splits)
  show "generation (Suc fuel) w env req sid (fst (planningStage w req cm cp)) cm cp cache tr
         = generation (Suc fuel) w env (req\<lparr>useKimiPlanning := Some False\<rparr>) sid
             (fst (planningStage w (req\<lparr>useKimiPlanning := Some False\<rparr>) cm cp)) cm cp cache tr"
    unfolding ps off generation_def pc msgs by (rule refl)
  fix ctx eff
  assume pc: "prepareContext w req (messages req) = (Inr ctx, eff)"
  then show "processToolInvocations w (messages req) = Inr (processedMessages ctx)"
    by (rule prepareContext_processed)
  from generation_first_call [OF pc, of fuel env sid cm cp cache tr]
  show "\<exists>ext. fst (snd (generation (Suc fuel) w env req sid
                                (fst (planningStage w req cm cp)) cm cp cache tr))
                    = tr @ eff @ [Log Info, Log Info, BuilderCall cm cp (processedMessages ctx)] @ ext"
    unfolding ps by (simp add: builderMessages_def)
qed

theorem planning_failure_not_fatal_witness:
  "chatMode exampleRequest = ''build'' \<and> useKimiPlanning exampleRequest \<noteq> Some False
   \<and> lastUserMessage (messages exampleRequest) = Some \<lparr>role = ''user'', content = ''todo app''\<rparr>
   \<and> planningThrows planlessWorld \<lparr>role = ''user'', content = ''todo app''\<rparr>
   \<and> fst (planningStage planlessWorld exampleRequest ''qwen/qwen3-coder'' ''OpenRouter'')
       = messages exampleRequest
   \<and> processToolInvocations planlessWorld (messages exampleRequest) = Inr (messages exampleRequest)
   \<and> (\<exists>ext. fst (snd (generation (Suc 3) planlessWorld unsetEnv exampleRequest (Some ''s1'')
                         (fst (planningStage planlessWorld exampleRequest ''qwen/qwen3-coder'' ''OpenRouter''))
                         ''qwen/qwen3-coder'' ''OpenRouter'' None []))
             = [Log Debug, Log Info, ProcessToolInvocations (messages exampleRequest), Log Info, Log Info,
                BuilderCall ''qwen/qwen3-coder'' ''OpenRouter'' (messages exampleRequest)] @ ext)
   \<and> PlanningCall (planningPrompt ''todo app'')
        \<in> set (fst (snd (chatAction 4 planlessWorld unsetEnv None)))
   \<and> callsOf (fst (snd (chatAction 4 planlessWorld unsetEnv None)))
        = [(''qwen/qwen3-coder'', ''OpenRouter'')]
   \<and> map_option (map_sum id status) (fst (chatAction 4 planlessWorld unsetEnv None))
        = Some (Inr 200)"
proof -
  let ?lum = "\<lparr>role = ''user'', content = ''todo app''\<rparr>"
  let ?ctx = "\<lparr>processedMessages = messages exampleRequest, filteredFiles = None,
               summary = None, cumulativeUsage = zeroUsage\<rparr>"
  let ?eff = "[Log Debug, Log Info, ProcessToolInvocations (messages exampleRequest)]"
  have h: "chatMode exampleRequest = ''build'' \<and> useKimiPlanning exampleRequest \<noteq> Some False
     \<and> lastUserMessage (messages exampleRequest) = Some ?lum \<and> planningThrows planlessWorld ?lum"
    by (simp add: exampleRequest_def lastUserMessage_def planningThrows_def planlessWorld_def
          exampleWorld_def)
  have pc: "prepareContext planlessWorld exampleRequest (messages exampleRequest) = (Inr ?ctx, ?eff)"
    by (simp add: prepareContext_def planlessWorld_def exampleWorld_def exampleRequest_def)
  from planning_failure_not_fatal [of exampleRequest ?lum planlessWorld "''qwen/qwen3-coder''"
      "''OpenRouter''" 3 unsetEnv "Some ''s1''" None "[]"] h
  have c: "fst (planningStage planlessWorld exampleRequest ''qwen/qwen3-coder'' ''OpenRouter'')
             = messages exampleRequest
     \<and> (\<forall>ctx eff. prepareContext planlessWorld exampleRequest (messages exampleRequest) = (Inr ctx, eff) \<longrightarrow>
           processToolInvocations planlessWorld (messages exampleRequest) = Inr (processedMessages ctx)
           \<and> (\<exists>ext. fst (snd (generation (Suc 3) planlessWorld unsetEnv exampleRequest (Some ''s1'')
                                (fst (planningStage planlessWorld exampleRequest ''qwen/qwen3-coder''
                                        ''OpenRouter''))
                                ''qwen/qwen3-coder'' ''OpenRouter'' None []))
                    = [] @ eff @ [Log Info, Log Info,
                         BuilderCall ''qwen/qwen3-coder'' ''OpenRouter'' (processedMessages ctx)] @ ext))"
    by blast
  then have "processToolInvocations planlessWorld (messages exampleRequest) = Inr (processedMessages ?ctx)
     \<and> (\<exists>ext. fst (snd (generation (Suc 3) planlessWorld unsetEnv exampleRequest (Some ''s1'')
                                (fst (planningStage planlessWorld exampleRequest ''qwen/qwen3-coder''
                                        ''OpenRouter''))
                                ''qwen/qwen3-coder'' ''OpenRouter'' None []))
                    = [] @ ?eff @ [Log Info, Log Info,
                         BuilderCall ''qwen/qwen3-coder'' ''OpenRouter'' (processedMessages ?ctx)] @ ext)"
    using pc by blast
  then have d: "processToolInvocations planlessWorld (messages exampleRequest) = Inr (messages exampleRequest)
     \<and> (\<exists>ext. fst (snd (generation (Suc 3) planlessWorld unsetEnv exampleRequest (Some ''s1'')
                         (fst (planningStage planlessWorld exampleRequest ''qwen/qwen3-coder'' ''OpenRouter''))
                         ''qwen/qwen3-coder'' ''OpenRouter'' None []))
             = [Log Debug, Log Info, ProcessToolInvocations (messages exampleRequest), Log Info, Log Info,
                BuilderCall ''qwen/qwen3-coder'' ''OpenRouter'' (messages exampleRequest)] @ ext)"
    by simp
  have run: "PlanningCall (planningPrompt ''todo app'')
        \<in> set (fst (snd (chatAction 4 planlessWorld unsetEnv None)))
   \<and> callsOf (fst (snd (chatAction 4 planlessWorld unsetEnv None)))
        = [(''qwen/qwen3-coder'', ''OpenRouter'')]
   \<and> map_option (map_sum id status) (fst (chatAction 4 planlessWorld unsetEnv None))
        = Some (Inr 200)"
    by code_simp
  show ?thesis
    using h c d run by blast
qed

subsection \<open>Leaving the walk\<close>

text \<open>
  C5. When the first builder call for the current model and provider returns a result, the
  walk ends in that pass with this result, and that one call is the only builder call it
  has added to the trace: no later chain entry is called. The current model and provider
  are arbitrary, so this holds for the entry at every chain position.
\<close>

theorem first_attempt_success_stops_walk:
  assumes "builderGenerateText w (builderCount (wsTrace st)) m p msgs = Inr r"
  shows "fst (walk (Suc fuel) w env msgs m p st) = Some (Inr r)
       \<and> callsOf (wsTrace (snd (walk (Suc fuel) w env msgs m p st))) = callsOf (wsTrace st) @ [(m, p)]"
  unfolding walk_first_success [OF assms] by (simp add: callsOf_append)

theorem first_attempt_success_stops_walk_witness:
  "builderGenerateText exampleWorld (builderCount (wsTrace (initialState None)))
       ''gemini-2.5-flash'' ''OpenRouter'' [] = Inr builderAnswer
   \<and> fst (walk (Suc 3) exampleWorld unsetEnv [] ''gemini-2.5-flash'' ''OpenRouter'' (initialState None))
       = Some (Inr builderAnswer)
   \<and> callsOf (wsTrace (snd (walk (Suc 3) exampleWorld unsetEnv [] ''gemini-2.5-flash'' ''OpenRouter''
                               (initialState None))))
       = callsOf (wsTrace (initialState None)) @ [(''gemini-2.5-flash'', ''OpenRouter'')]"
proof -
  have call: "builderGenerateText exampleWorld (builderCount (wsTrace (initialState None)))
       ''gemini-2.5-flash'' ''OpenRouter'' [] = Inr builderAnswer"
    by (simp add: exampleWorld_def)
  show ?thesis
    using call first_attempt_success_stops_walk [OF call, of 3 unsetEnv] by simp
qed

subsection \<open>The registry\<close>

text \<open>
  C6, as the registry has it. \<open>getNextFallback\<close> returns the entry that follows the
  first entry whose model equals the given string; it returns \<open>null\<close> when that first
  matching entry is the last entry of the chain, and when no entry matches. When the model
  strings of the chain are pairwise distinct, it returns \<open>null\<close> for the model of the
  last entry.
\<close>

theorem getNextFallback_first_match:
  "((\<forall>x \<in> set pre. model x \<noteq> currentModel) \<and> model e = currentModel
      \<and> fst (getFallbackChain env cache) = pre @ e # nxt # rest
     \<longrightarrow> fst (getNextFallback env cache currentModel) = Some nxt)
  \<and> ((\<forall>x \<in> set pre. model x \<noteq> currentModel) \<and> model e = currentModel
      \<and> fst (getFallbackChain env cache) = pre @ [e]
     \<longrightarrow> fst (getNextFallback env cache currentModel) = None)
  \<and> ((\<forall>x \<in> set (fst (getFallbackChain env cache)). model x \<noteq> currentModel)
     \<longrightarrow> fst (getNextFallback env cache currentModel) = None)
  \<and> (fst (getFallbackChain env cache) \<noteq> [] \<and> distinct (map model (fst (getFallbackChain env cache)))
      \<and> currentModel = model (last (fst (getFallbackChain env cache)))
     \<longrightarrow> fst (getNextFallback env cache currentModel) = None)"
proof (intro conjI impI)
  assume a: "(\<forall>x \<in> set pre. model x \<noteq> currentModel) \<and> model e = currentModel
      \<and> fst (getFallbackChain env cache) = pre @ e # nxt # rest"
  then have "findIndex (\<lambda>f. model f = currentModel) (pre @ e # nxt # rest) = int (length pre)"
    by (intro findIndex_first) auto
  with a show "fst (getNextFallback env cache currentModel) = Some nxt"
    by (auto simp: getNextFallback_def Let_def nth_append split: prod.splits)
next
  assume a: "(\<forall>x \<in> set pre. model x \<noteq> currentModel) \<and> model e = currentModel
      \<and> fst (getFallbackChain env cache) = pre @ [e]"
  then have "findIndex (\<lambda>f. model f = currentModel) (pre @ [e]) = int (length pre)"
    by (intro findIndex_first) auto
  with a show "fst (getNextFallback env cache currentModel) = None"
    by (auto simp: getNextFallback_def Let_def split: prod.splits)
next
  assume "\<forall>x \<in> set (fst (getFallbackChain env cache)). model x \<noteq> currentModel"
  then have "findIndex (\<lambda>f. model f = currentModel) (fst (getFallbackChain env cache)) = - 1"
    by (simp add: findIndex_none)
  then show "fst (getNextFallback env cache currentModel) = None"
    by (auto simp: getNextFallback_def Let_def split: prod.splits)
next
  let ?chain = "fst (getFallbackChain env cache)"
  assume a: "?chain \<noteq> [] \<and> distinct (map model ?chain) \<and> currentModel = model (last ?chain)"
  then have split: "?chain = butlast ?chain @ [last ?chain]"
    by simp
  have "distinct (map model (butlast ?chain @ [last ?chain]))"
    using a split by simp
  then have "\<forall>x \<in> set (butlast ?chain). model x \<noteq> model (last ?chain)"
    by (auto simp: image_iff)
  then have "findIndex (\<lambda>f. model f = currentModel) (butlast ?chain @ [last ?chain])
             = int (length (butlast ?chain))"
    using a by (intro findIndex_first) auto
  then have "findIndex (\<lambda>f. model f = currentModel) ?chain = int (length ?chain) - 1"
    using a split by (simp add: of_nat_diff Suc_leI length_greater_0_conv)
  then show "fst (getNextFallback env cache currentModel) = None"
    by (auto simp: getNextFallback_def Let_def split: prod.splits)
qed

theorem getNextFallback_first_match_witness:
  "fst (getFallbackChain unsetEnv None)
     = [] @ \<lparr>model = ''qwen/qwen3-coder'', provider = ''OpenRouter'', maxRetries = 2\<rparr>
          # \<lparr>model = ''gemini-2.5-flash'', provider = ''OpenRouter'', maxRetries = 2\<rparr>
          # [\<lparr>model = ''x-ai/grok-4-fast'', provider = ''OpenRouter'', maxRetries = 1\<rparr>,
             \<lparr>model = ''qwen/qwen3-coder-480b-a35b-instruct'', provider = ''Novita'', maxRetries = 1\<rparr>]
   \<and> fst (getNextFallback unsetEnv None ''qwen/qwen3-coder'')
       = Some \<lparr>model = ''gemini-2.5-flash'', provider = ''OpenRouter'', maxRetries = 2\<rparr>
   \<and> fst (getNextFallback unsetEnv None ''qwen/qwen3-coder-480b-a35b-instruct'') = None
   \<and> fst (getNextFallback unsetEnv None ''gpt-4o'') = None"
proof -
  let ?e0 = "\<lparr>model = ''qwen/qwen3-coder'', provider = ''OpenRouter'', maxRetries = 2\<rparr>"
  let ?e1 = "\<lparr>model = ''gemini-2.5-flash'', provider = ''OpenRouter'', maxRetries = 2\<rparr>"
  let ?e2 = "\<lparr>model = ''x-ai/grok-4-fast'', provider = ''OpenRouter'', maxRetries = 1\<rparr>"
  let ?e3 = "\<lparr>model = ''qwen/qwen3-coder-480b-a35b-instruct'', provider = ''Novita'', maxRetries = 1\<rparr>"
  have chain: "fst (getFallbackChain unsetEnv None) = [?e0, ?e1, ?e2, ?e3]"
    by (simp add: getFallbackChain_None buildChain_def unsetEnv_def env_or_def)
  from getNextFallback_first_match [of "[]" "''qwen/qwen3-coder''" ?e0 unsetEnv None ?e1 "[?e2, ?e3]"]
       getNextFallback_first_match [of "[?e0, ?e1, ?e2]" "''qwen/qwen3-coder-480b-a35b-instruct''" ?e3
          unsetEnv None]
       getNextFallback_first_match [of _ "''gpt-4o''" _ unsetEnv None]
       getNextFallback_first_match [of _ "''qwen/qwen3-coder-480b-a35b-instruct''" _ unsetEnv None]
       chain
  show ?thesis
    by simp
qed

text \<open>
  With a model string that occurs twice, equality with the model of the last entry does
  not give \<open>null\<close>: when \<open>PRIMARY_MODEL\<close> is set to the default model of the last
  entry, the last entry has that model and \<open>getNextFallback\<close> returns the second entry.
\<close>

theorem getNextFallback_last_model_counterexample:
  "model (last (fst (getFallbackChain duplicateEnv None))) = ''qwen/qwen3-coder-480b-a35b-instruct''
   \<and> fst (getNextFallback duplicateEnv None ''qwen/qwen3-coder-480b-a35b-instruct'')
       = Some \<lparr>model = ''gemini-2.5-flash'', provider = ''OpenRouter'', maxRetries = 2\<rparr>"
  by code_simp

text \<open>
  C7. The first call of \<open>getFallbackChain\<close> builds the chain from the environment (the
  primary pair and the three fallback pairs, each variable with its default when it is
  unset or empty, and the bounds 2, 2, 1 and 1) and stores it. After any sequence of calls
  of the registry's functions and of requests handled by \<open>chatAction\<close>, under whatever
  environments, the stored chain is still that chain, \<open>getFallbackChain\<close> returns it
  without looking at the environment, and \<open>getDefaultModel\<close> returns its entry 0. With
  no variable set, the chain is the list of the four defaults; with some variables set, it
  has their values in the places of the defaults.
\<close>

theorem fallback_chain_memoized:
  "getFallbackChain env None = (configuredChain env, Some (configuredChain env))
   \<and> processRun (snd (getFallbackChain env None)) steps = Some (configuredChain env)
   \<and> getFallbackChain env' (processRun (snd (getFallbackChain env None)) steps)
       = (configuredChain env, Some (configuredChain env))
   \<and> fst (getDefaultModel env' (processRun (snd (getFallbackChain env None)) steps))
       = Some (configuredChain env ! 0)
   \<and> fst (getFallbackChain unsetEnv None)
       = [\<lparr>model = ''qwen/qwen3-coder'', provider = ''OpenRouter'', maxRetries = 2\<rparr>,
          \<lparr>model = ''gemini-2.5-flash'', provider = ''OpenRouter'', maxRetries = 2\<rparr>,
          \<lparr>model = ''x-ai/grok-4-fast'', provider = ''OpenRouter'', maxRetries = 1\<rparr>,
          \<lparr>model = ''qwen/qwen3-coder-480b-a35b-instruct'', provider = ''Novita'', maxRetries = 1\<rparr>]
   \<and> fst (getFallbackChain customEnv None)
       = [\<lparr>model = ''gpt-4o'', provider = ''OpenAI'', maxRetries = 2\<rparr>,
          \<lparr>model = ''gemini-2.5-flash'', provider = ''OpenRouter'', maxRetries = 2\<rparr>,
          \<lparr>model = ''x-ai/grok-4-fast'', provider = ''Google'', maxRetries = 1\<rparr>,
          \<lparr>model = ''claude-3'', provider = ''Novita'', maxRetries = 1\<rparr>]
   \<and> fst (getFallbackChain unsetEnv (snd (getFallbackChain customEnv None)))
       = fst (getFallbackChain customEnv None)"
proof -
  have vo: "env_or e name dflt = variableOr e name dflt" for e name dflt
    by (simp add: env_or_def variableOr_def split: option.splits list.splits)
  have bc: "buildChain env = configuredChain env"
    by (simp add: buildChain_def configuredChain_def vo)
  have first: "getFallbackChain env None = (configuredChain env, Some (configuredChain env))"
    by (simp add: getFallbackChain_None bc)
  have run: "processRun (snd (getFallbackChain env None)) steps = Some (configuredChain env)"
    by (simp add: first processRun_Some)
  have again: "getFallbackChain env' (processRun (snd (getFallbackChain env None)) steps)
       = (configuredChain env, Some (configuredChain env))"
    by (simp add: run getFallbackChain_Some)
  have dflt: "fst (getDefaultModel env' (processRun (snd (getFallbackChain env None)) steps))
       = Some (configuredChain env ! 0)"
    by (simp add: run getDefaultModel_def getFallbackChain_Some configuredChain_def)
  have unset: "fst (getFallbackChain unsetEnv None)
       = [\<lparr>model = ''qwen/qwen3-coder'', provider = ''OpenRouter'', maxRetries = 2\<rparr>,
          \<lparr>model = ''gemini-2.5-flash'', provider = ''OpenRouter'', maxRetries = 2\<rparr>,
          \<lparr>model = ''x-ai/grok-4-fast'', provider = ''OpenRouter'', maxRetries = 1\<rparr>,
          \<lparr>model = ''qwen/qwen3-coder-480b-a35b-instruct'', provider = ''Novita'', maxRetries = 1\<rparr>]"
    by (simp add: getFallbackChain_None buildChain_def unsetEnv_def env_or_def)
  have custom: "fst (getFallbackChain customEnv None)
       = [\<lparr>model = ''gpt-4o'', provider = ''OpenAI'', maxRetries = 2\<rparr>,
          \<lparr>model = ''gemini-2.5-flash'', provider = ''OpenRouter'', maxRetries = 2\<rparr>,
          \<lparr>model = ''x-ai/grok-4-fast'', provider = ''Google'', maxRetries = 1\<rparr>,
          \<lparr>model = ''claude-3'', provider = ''Novita'', maxRetries = 1\<rparr>]"
    by (simp add: getFallbackChain_None buildChain_def customEnv_def env_or_def)
  have keep: "fst (getFallbackChain unsetEnv (snd (getFallbackChain customEnv None)))
       = fst (getFallbackChain customEnv None)"
    by (simp add: getFallbackChain_None getFallbackChain_Some)
  show ?thesis
    using first run again dflt unset custom keep by blast
qed

subsection \<open>Persistence\<close>

text \<open>
  C8. The effects a walk adds to the trace are builder calls and log lines only, whatever
  the number of passes. In the trace of the whole handler, a call of
  \<open>db.incrementUsage\<close> comes after a builder call that returned a result, with no such
  write before that call, and the handler then answers with status 200; so a run that
  ends in an error response, or whose walk has not ended, has persisted nothing. The
  pause of two seconds between attempts changes nothing outside and is not an effect.
\<close>

theorem no_persistence_before_success:
  "(\<exists>ext. wsTrace (snd (walk fuel w env msgs m p st)) = wsTrace st @ ext
          \<and> (\<forall>x \<in> set ext. driverEffect x))
   \<and> (\<forall>x \<in> set (fst (snd (chatAction fuel w env cache))).
         isIncrementUsage x \<longrightarrow>
           afterSuccessfulCall w (fst (snd (chatAction fuel w env cache))) x
           \<and> (\<exists>resp. fst (chatAction fuel w env cache) = Some (Inr resp) \<and> status resp = 200))"
proof (intro conjI ballI impI)
  show "\<exists>ext. wsTrace (snd (walk fuel w env msgs m p st)) = wsTrace st @ ext
          \<and> (\<forall>x \<in> set ext. driverEffect x)"
    by (rule walk_trace)
next
  fix x
  assume x: "x \<in> set (fst (snd (chatAction fuel w env cache)))" "isIncrementUsage x"
  have goal: "afterSuccessfulCall w (fst (snd (chatAction fuel w env cache))) x
           \<and> (\<exists>resp. fst (chatAction fuel w env cache) = Some (Inr resp) \<and> status resp = 200)"
  proof (cases "requireAuth w")
    case (Inl e)
    then show ?thesis
      using x by (auto simp: chatAction_def isIncrementUsage_def)
  next
    case (Inr userId)
    obtain g geff where ug: "usageGuard w userId = (g, geff)"
      by (cases "usageGuard w userId")
    have geff: "\<forall>y \<in> set ([RequireAuth, Log Info] @ geff). \<not> isIncrementUsage y"
      using usageGuard_effects [of _ w userId] ug by (auto simp: isIncrementUsage_def)
    show ?thesis
    proof (cases g)
      case (GuardReject resp)
      then show ?thesis
        using x Inr ug geff by (auto simp: chatAction_def)
    next
      case (GuardPass tier sid)
      have ca: "chatAction fuel w env cache
                = afterGuard fuel w env cache sid ([RequireAuth, Log Info] @ geff)"
        using Inr ug GuardPass by (simp add: chatAction_def)
      show ?thesis
        using afterGuard_increment [OF geff, of x fuel w env cache sid] x unfolding ca by simp
    qed
  qed
  from goal show "afterSuccessfulCall w (fst (snd (chatAction fuel w env cache))) x" by simp
  from goal show "\<exists>resp. fst (chatAction fuel w env cache) = Some (Inr resp) \<and> status resp = 200"
    by simp
qed

theorem no_persistence_before_success_witness:
  "isIncrementUsage (IncrementUsage ''s1'' ''ai_generation'' 28 0)
   \<and> IncrementUsage ''s1'' ''ai_generation'' 28 0
        \<in> set (fst (snd (chatAction 1 exampleWorld unsetEnv None)))
   \<and> afterSuccessfulCall exampleWorld (fst (snd (chatAction 1 exampleWorld unsetEnv None)))
        (IncrementUsage ''s1'' ''ai_generation'' 28 0)
   \<and> (\<exists>resp. fst (chatAction 1 exampleWorld unsetEnv None) = Some (Inr resp) \<and> status resp = 200)
   \<and> (\<exists>ext. wsTrace (snd (walk 4 overloadedWorld unsetEnv [] ''qwen/qwen3-coder'' ''OpenRouter''
                              (initialState None)))
              = wsTrace (initialState None) @ ext
            \<and> (\<forall>x \<in> set ext. driverEffect x))"
proof -
  have inc: "isIncrementUsage (IncrementUsage ''s1'' ''ai_generation'' 28 0)"
    by (simp add: isIncrementUsage_def)
  have mem: "IncrementUsage ''s1'' ''ai_generation'' 28 0
        \<in> set (fst (snd (chatAction 1 exampleWorld unsetEnv None)))"
    by code_simp
  from no_persistence_before_success [of 1 exampleWorld unsetEnv "[]" "[]" "[]" "initialState None" None]
       inc mem
  have a: "afterSuccessfulCall exampleWorld (fst (snd (chatAction 1 exampleWorld unsetEnv None)))
        (IncrementUsage ''s1'' ''ai_generation'' 28 0)
     \<and> (\<exists>resp. fst (chatAction 1 exampleWorld unsetEnv None) = Some (Inr resp) \<and> status resp = 200)"
    by blast
  from no_persistence_before_success [of 4 overloadedWorld unsetEnv "[]" "''qwen/qwen3-coder''"
         "''OpenRouter''" "initialState None" None]
  have b: "\<exists>ext. wsTrace (snd (walk 4 overloadedWorld unsetEnv [] ''qwen/qwen3-coder'' ''OpenRouter''
                              (initialState None)))
              = wsTrace (initialState None) @ ext
            \<and> (\<forall>x \<in> set ext. driverEffect x)"
    by (rule conjunct1)
  from inc mem a b show ?thesis
    by simp
qed

subsection \<open>A model override outside the chain\<close>

text \<open>
  C9, as the handler has it. When the current model matches no chain entry, as for a
  request whose non-empty \<open>requestedModel\<close> is not in the chain, the walk makes exactly
  one builder call, for that model. If the call throws, the walk throws in its first pass:
  the thrown value itself when it is truthy, and a new error \<open>All models failed\<close> when
  it is falsy. \<open>shouldRetry\<close> returns false for such a model whatever the error and the
  count, and \<open>getNextFallback\<close> returns \<open>null\<close> for it, so no chain entry is tried.
\<close>

theorem unknown_override_single_attempt:
  assumes "\<forall>f \<in> set chain. model f \<noteq> m" and "wsCache st = Some chain" and "wsResult st = None"
  shows "callsOf (wsTrace (snd (walk (Suc fuel) w env msgs m p st))) = callsOf (wsTrace st) @ [(m, p)]
       \<and> (\<forall>x. builderGenerateText w (builderCount (wsTrace st)) m p msgs = Inl (ThrownObject x)
              \<longrightarrow> fst (walk (Suc fuel) w env msgs m p st) = Some (Inl (ThrownObject x)))
       \<and> (builderGenerateText w (builderCount (wsTrace st)) m p msgs = Inl ThrownNullish
            \<or> builderGenerateText w (builderCount (wsTrace st)) m p msgs = Inl ThrownFalsy
          \<longrightarrow> fst (walk (Suc fuel) w env msgs m p st) = Some (Inl (mkError ''All models failed'')))
       \<and> (\<forall>e n. fst (shouldRetry env (wsCache st) e n m) = Inr False)
       \<and> fst (getNextFallback env (wsCache st) m) = None
       \<and> (requestedModel req = Some m \<and> m \<noteq> []
            \<longrightarrow> orDefault (requestedModel req) ''model'' dflt = Inr m)"
proof (intro conjI allI impI)
  show "callsOf (wsTrace (snd (walk (Suc fuel) w env msgs m p st))) = callsOf (wsTrace st) @ [(m, p)]"
  proof (cases "builderGenerateText w (builderCount (wsTrace st)) m p msgs")
    case (Inl e)
    show ?thesis
      unfolding walk_unknown_fail [OF assms Inl] by (simp add: callsOf_append)
  next
    case (Inr r)
    show ?thesis
      unfolding walk_first_success [OF Inr] by (simp add: callsOf_append)
  qed
next
  fix x
  assume "builderGenerateText w (builderCount (wsTrace st)) m p msgs = Inl (ThrownObject x)"
  from walk_unknown_fail [OF assms this]
  show "fst (walk (Suc fuel) w env msgs m p st) = Some (Inl (ThrownObject x))"
    by simp
next
  assume "builderGenerateText w (builderCount (wsTrace st)) m p msgs = Inl ThrownNullish
            \<or> builderGenerateText w (builderCount (wsTrace st)) m p msgs = Inl ThrownFalsy"
  then show "fst (walk (Suc fuel) w env msgs m p st) = Some (Inl (mkError ''All models failed''))"
  proof
    assume "builderGenerateText w (builderCount (wsTrace st)) m p msgs = Inl ThrownNullish"
    from walk_unknown_fail [OF assms this] show ?thesis by simp
  next
    assume "builderGenerateText w (builderCount (wsTrace st)) m p msgs = Inl ThrownFalsy"
    from walk_unknown_fail [OF assms this] show ?thesis by simp
  qed
next
  fix e n
  show "fst (shouldRetry env (wsCache st) e n m) = Inr False"
    using assms(1,2) by (simp add: shouldRetry_unknown)
next
  show "fst (getNextFallback env (wsCache st) m) = None"
    using assms(1,2) by (simp add: getNextFallback_unknown)
next
  assume "requestedModel req = Some m \<and> m \<noteq> []"
  then show "orDefault (requestedModel req) ''model'' dflt = Inr m"
    by (simp add: orDefault_def strOr_def)
qed

theorem unknown_override_single_attempt_witness:
  "''gpt-4o'' \<notin> set (map model (buildChain unsetEnv))
   \<and> callsOf (wsTrace (snd (walk (Suc 3) overloadedWorld unsetEnv [] ''gpt-4o'' ''OpenAI''
                               (initialState (Some (buildChain unsetEnv))))))
       = callsOf (wsTrace (initialState (Some (buildChain unsetEnv)))) @ [(''gpt-4o'', ''OpenAI'')]
   \<and> fst (walk (Suc 3) overloadedWorld unsetEnv [] ''gpt-4o'' ''OpenAI''
             (initialState (Some (buildChain unsetEnv))))
       = Some (Inl (mkError ''HTTP 503''))
   \<and> fst (walk (Suc 3) silentWorld unsetEnv [] ''gpt-4o'' ''OpenAI''
             (initialState (Some (buildChain unsetEnv))))
       = Some (Inl (mkError ''All models failed''))
   \<and> fst (shouldRetry unsetEnv (wsCache (initialState (Some (buildChain unsetEnv))))
             (mkError ''HTTP 503'') 0 ''gpt-4o'') = Inr False
   \<and> orDefault (requestedModel (exampleRequest\<lparr>requestedModel := Some ''gpt-4o''\<rparr>)) ''model''
         (Some ''qwen/qwen3-coder'')
       = Inr ''gpt-4o''"
proof -
  let ?st = "initialState (Some (buildChain unsetEnv))"
  let ?req = "exampleRequest\<lparr>requestedModel := Some ''gpt-4o''\<rparr>"
  have unknown: "\<forall>f \<in> set (buildChain unsetEnv). model f \<noteq> ''gpt-4o''"
    by (simp add: buildChain_def unsetEnv_def env_or_def)
  have cache: "wsCache ?st = Some (buildChain unsetEnv)" and res: "wsResult ?st = None"
    by (simp_all add: initialState_def)
  have call: "builderGenerateText overloadedWorld (builderCount (wsTrace ?st)) ''gpt-4o'' ''OpenAI'' []
              = Inl (ThrownObject \<lparr>message = StringMessage (ascii ''HTTP 503''), statusCode = None,
                                    isRetryable = None, errProvider = None\<rparr>)"
    by (simp add: overloadedWorld_def mkError_def)
  have silent: "builderGenerateText silentWorld (builderCount (wsTrace ?st)) ''gpt-4o'' ''OpenAI'' []
              = Inl ThrownNullish"
    by (simp add: silentWorld_def)
  have req: "requestedModel ?req = Some ''gpt-4o'' \<and> ''gpt-4o'' \<noteq> []"
    by simp
  have notin: "''gpt-4o'' \<notin> set (map model (buildChain unsetEnv))"
    using unknown by auto
  note loud = unknown_override_single_attempt [OF unknown cache res, of 3 overloadedWorld unsetEnv "[]"
         "''OpenAI''" ?req "Some ''qwen/qwen3-coder''"]
  note quiet = unknown_override_single_attempt [OF unknown cache res, of 3 silentWorld unsetEnv "[]"
         "''OpenAI''" ?req "Some ''qwen/qwen3-coder''"]
  have a: "callsOf (wsTrace (snd (walk (Suc 3) overloadedWorld unsetEnv [] ''gpt-4o'' ''OpenAI'' ?st)))
       = callsOf (wsTrace ?st) @ [(''gpt-4o'', ''OpenAI'')]"
    using loud by blast
  have b: "fst (walk (Suc 3) overloadedWorld unsetEnv [] ''gpt-4o'' ''OpenAI'' ?st)
       = Some (Inl (mkError ''HTTP 503''))"
    using loud call unfolding mkError_def by blast
  have c: "fst (walk (Suc 3) silentWorld unsetEnv [] ''gpt-4o'' ''OpenAI'' ?st)
       = Some (Inl (mkError ''All models failed''))"
    using quiet silent by blast
  have d: "fst (shouldRetry unsetEnv (wsCache ?st) (mkError ''HTTP 503'') 0 ''gpt-4o'') = Inr False"
    using loud by blast
  have e: "orDefault (requestedModel ?req) ''model'' (Some ''qwen/qwen3-coder'') = Inr ''gpt-4o''"
    using loud req by blast
  show ?thesis
    using notin a b c d e by blast
qed

text \<open>
  The sentence of C9 that the walk throws the error of the failed attempt fails on a falsy
  thrown value: in a world where the builder call throws \<open>undefined\<close>, the walk for
  a model outside the chain throws a new error \<open>All models failed\<close>.
\<close>

theorem unknown_override_falsy_error_counterexample:
  "''gpt-4o'' \<notin> set (map model (buildChain unsetEnv))
   \<and> builderGenerateText silentWorld 0 ''gpt-4o'' ''OpenAI'' [] = Inl ThrownNullish
   \<and> callsOf (wsTrace (snd (walk 4 silentWorld unsetEnv [] ''gpt-4o'' ''OpenAI''
                               (initialState (Some (buildChain unsetEnv))))))
        = [(''gpt-4o'', ''OpenAI'')]
   \<and> fst (walk 4 silentWorld unsetEnv [] ''gpt-4o'' ''OpenAI''
             (initialState (Some (buildChain unsetEnv))))
        = Some (Inl (mkError ''All models failed''))
   \<and> fst (walk 4 silentWorld unsetEnv [] ''gpt-4o'' ''OpenAI''
             (initialState (Some (buildChain unsetEnv))))
        \<noteq> Some (Inl ThrownNullish)"
  by code_simp

subsection \<open>The usage-limit guard\<close>

text \<open>
  C10. The guard rejects, with status 429 and the limit-reached body, exactly when the user
  lookup and the limit check both return and the check disallows the action. When the
  user lookup throws, the guard logs the error and passes with tier \<open>free\<close> and no
  Supabase id; when the limit check throws, it logs the error and passes with the tier and
  id of the user, as it does when the check allows the action. After a pass the handler
  goes on with the request body, and a limit-reached body in the handler's response comes
  from a rejecting guard only.
\<close>

theorem usage_guard_fails_open:
  "(fst (usageGuard w userId) = GuardReject resp \<longleftrightarrow>
      (\<exists>user check. getAuthenticatedUser w = Inr user
          \<and> canPerformAction w userId ''ai_generation'' = Inr check \<and> \<not> allowed check
          \<and> resp = \<lparr>status = 429,
                     body = LimitReached (strOr (reason check) ''AI generation limit reached'')\<rparr>))
   \<and> (getAuthenticatedUser w = Inl e \<longrightarrow>
         usageGuard w userId = (GuardPass ''free'' None, [GetAuthenticatedUser, Log Error]))
   \<and> (getAuthenticatedUser w = Inr user \<and> canPerformAction w userId ''ai_generation'' = Inl e \<longrightarrow>
         usageGuard w userId
           = (GuardPass (subscriptionTier user) (supabaseUserId user),
              [GetAuthenticatedUser, Log Info, CanPerformAction userId ''ai_generation'', Log Error]))
   \<and> (requireAuth w = Inr userId \<and> fst (usageGuard w userId) = GuardPass tier sid \<longrightarrow>
         chatAction fuel w env cache
           = afterGuard fuel w env cache sid ([RequireAuth, Log Info] @ snd (usageGuard w userId)))
   \<and> (fst (chatAction fuel w env cache) = Some (Inr resp) \<and> body resp = LimitReached msg \<longrightarrow>
         (\<exists>uid. requireAuth w = Inr uid \<and> fst (usageGuard w uid) = GuardReject resp))"
proof (intro conjI impI)
  show "fst (usageGuard w userId) = GuardReject resp \<longleftrightarrow>
      (\<exists>user check. getAuthenticatedUser w = Inr user
          \<and> canPerformAction w userId ''ai_generation'' = Inr check \<and> \<not> allowed check
          \<and> resp = \<lparr>status = 429,
                     body = LimitReached (strOr (reason check) ''AI generation limit reached'')\<rparr>)"
    by (auto simp: usageGuard_def split: sum.splits)
next
  assume "getAuthenticatedUser w = Inl e"
  then show "usageGuard w userId = (GuardPass ''free'' None, [GetAuthenticatedUser, Log Error])"
    by (simp add: usageGuard_def)
next
  assume "getAuthenticatedUser w = Inr user \<and> canPerformAction w userId ''ai_generation'' = Inl e"
  then show "usageGuard w userId
           = (GuardPass (subscriptionTier user) (supabaseUserId user),
              [GetAuthenticatedUser, Log Info, CanPerformAction userId ''ai_generation'', Log Error])"
    by (simp add: usageGuard_def)
next
  assume "requireAuth w = Inr userId \<and> fst (usageGuard w userId) = GuardPass tier sid"
  then show "chatAction fuel w env cache
           = afterGuard fuel w env cache sid ([RequireAuth, Log Info] @ snd (usageGuard w userId))"
    by (cases "usageGuard w userId") (simp add: chatAction_def)
next
  assume a: "fst (chatAction fuel w env cache) = Some (Inr resp) \<and> body resp = LimitReached msg"
  show "\<exists>uid. requireAuth w = Inr uid \<and> fst (usageGuard w uid) = GuardReject resp"
  proof (cases "requireAuth w")
    case (Inl e)
    with a show ?thesis by (simp add: chatAction_def)
  next
    case (Inr uid)
    obtain g geff where ug: "usageGuard w uid = (g, geff)"
      by (cases "usageGuard w uid")
    show ?thesis
    proof (cases g)
      case (GuardReject r)
      with a Inr ug show ?thesis by (simp add: chatAction_def)
    next
      case (GuardPass t sid)
      with a Inr ug have "fst (afterGuard fuel w env cache sid ([RequireAuth, Log Info] @ geff))
          = Some (Inr resp)"
        by (simp add: chatAction_def)
      from afterGuard_body [OF this, of msg] a show ?thesis by simp
    qed
  qed
qed

theorem usage_guard_fails_open_witness:
  "fst (usageGuard limitedWorld ''u1'')
     = GuardReject \<lparr>status = 429, body = LimitReached ''AI generation limit reached''\<rparr>
   \<and> usageGuard anonymousWorld ''u1'' = (GuardPass ''free'' None, [GetAuthenticatedUser, Log Error])
   \<and> usageGuard uncheckedWorld ''u1''
       = (GuardPass ''pro'' (Some ''s1''),
          [GetAuthenticatedUser, Log Info, CanPerformAction ''u1'' ''ai_generation'', Log Error])
   \<and> chatAction 1 exampleWorld unsetEnv None
       = afterGuard 1 exampleWorld unsetEnv None (Some ''s1'')
           ([RequireAuth, Log Info] @ snd (usageGuard exampleWorld ''u1''))
   \<and> (\<exists>uid. requireAuth limitedWorld = Inr uid
         \<and> fst (usageGuard limitedWorld uid)
             = GuardReject \<lparr>status = 429, body = LimitReached ''AI generation limit reached''\<rparr>)"
proof -
  let ?resp = "\<lparr>status = 429, body = LimitReached ''AI generation limit reached''\<rparr>"
  let ?user = "\<lparr>subscriptionTier = ''pro'', supabaseUserId = Some ''s1''\<rparr>"
  have rej: "getAuthenticatedUser limitedWorld = Inr ?user
      \<and> canPerformAction limitedWorld ''u1'' ''ai_generation'' = Inr \<lparr>allowed = False, reason = None\<rparr>
      \<and> \<not> allowed \<lparr>allowed = False, reason = None\<rparr>
      \<and> ?resp = \<lparr>status = 429,
                  body = LimitReached (strOr (reason \<lparr>allowed = False, reason = None\<rparr>)
                                         ''AI generation limit reached'')\<rparr>"
    by (simp add: limitedWorld_def exampleWorld_def strOr_def)
  have anon: "getAuthenticatedUser anonymousWorld = Inl (mkError ''user lookup failed'')"
    by (simp add: anonymousWorld_def)
  have unch: "getAuthenticatedUser uncheckedWorld = Inr ?user
      \<and> canPerformAction uncheckedWorld ''u1'' ''ai_generation'' = Inl (mkError ''check failed'')"
    by (simp add: uncheckedWorld_def exampleWorld_def)
  have pass: "requireAuth exampleWorld = Inr ''u1''
      \<and> fst (usageGuard exampleWorld ''u1'') = GuardPass ''pro'' (Some ''s1'')"
    by (simp add: exampleWorld_def usageGuard_def)
  have lim: "fst (chatAction 1 limitedWorld unsetEnv None) = Some (Inr ?resp)
      \<and> body ?resp = LimitReached ''AI generation limit reached''"
    by (simp add: chatAction_def usageGuard_def limitedWorld_def exampleWorld_def strOr_def)
  have c1: "fst (usageGuard limitedWorld ''u1'') = GuardReject ?resp"
    using usage_guard_fails_open [of limitedWorld "''u1''" ?resp] rej by blast
  have c2: "usageGuard anonymousWorld ''u1'' = (GuardPass ''free'' None, [GetAuthenticatedUser, Log Error])"
    using usage_guard_fails_open [of anonymousWorld "''u1''" _ "mkError ''user lookup failed''"] anon
    by blast
  have c3: "usageGuard uncheckedWorld ''u1''
       = (GuardPass (subscriptionTier ?user) (supabaseUserId ?user),
          [GetAuthenticatedUser, Log Info, CanPerformAction ''u1'' ''ai_generation'', Log Error])"
    using usage_guard_fails_open [of uncheckedWorld "''u1''" _ "mkError ''check failed''" ?user] unch
    by blast
  have c4: "chatAction 1 exampleWorld unsetEnv None
       = afterGuard 1 exampleWorld unsetEnv None (Some ''s1'')
           ([RequireAuth, Log Info] @ snd (usageGuard exampleWorld ''u1''))"
    using usage_guard_fails_open [of exampleWorld "''u1''" _ _ _ "''pro''" "Some ''s1''" 1 unsetEnv None]
      pass by blast
  have c5: "\<exists>uid. requireAuth limitedWorld = Inr uid \<and> fst (usageGuard limitedWorld uid) = GuardReject ?resp"
    using usage_guard_fails_open [of limitedWorld _ ?resp _ _ _ _ 1 unsetEnv None
        "''AI generation limit reached''"] lim
    by blast
  from c1 c2 c3 c4 c5 show ?thesis
    by simp
qed

end
